theory Spec2Isabelle
  imports Main "HOL-Library.Sublist"
begin

section \<open>JavaScript values\<close>

text \<open>
  Widget snapshots are plain JSON-shaped JavaScript values.  The diff engine reads them
  through untyped property access and compares them with \<^verbatim>\<open>!==\<close>, which is
  equality of primitives but identity of objects and arrays.  Every object and array
  therefore carries the address it lives at: two structurally equal object literals
  evaluated at different times have different addresses.  The field list of an object is
  its own enumerable properties in the order \<^verbatim>\<open>Object.entries\<close> lists them.

  Strings are lists of code units (restricted here to the 8-bit range of \<^typ>\<open>char\<close>);
  numbers are modelled by integers, which covers every number for which \<^verbatim>\<open>!==\<close>
  is the negation of equality (NaN is outside the model).
\<close>

datatype jsval =
    JUndefined
  | JNull
  | JBool bool
  | JNum int
  | JStr string
  | JArr nat "jsval list"
  | JObj nat "(string \<times> jsval) list"

text \<open>\<^verbatim>\<open>a === b\<close>\<close>

fun strict_eq :: "jsval \<Rightarrow> jsval \<Rightarrow> bool" where
  "strict_eq JUndefined JUndefined = True"
| "strict_eq JNull JNull = True"
| "strict_eq (JBool a) (JBool b) = (a = b)"
| "strict_eq (JNum a) (JNum b) = (a = b)"
| "strict_eq (JStr a) (JStr b) = (a = b)"
| "strict_eq (JArr a _) (JArr b _) = (a = b)"
| "strict_eq (JObj a _) (JObj b _) = (a = b)"
| "strict_eq _ _ = False"

text \<open>\<^verbatim>\<open>a !== b\<close>\<close>

definition strict_neq :: "jsval \<Rightarrow> jsval \<Rightarrow> bool" where
  "strict_neq a b = (\<not> strict_eq a b)"

text \<open>The decimal digits of a natural number: \<^verbatim>\<open>String(n)\<close>, and the key of the index \<open>n\<close>.\<close>

definition digit_char :: "nat \<Rightarrow> char" where
  "digit_char d = ''0123456789abcdef'' ! d"

function dec_of_nat :: "nat \<Rightarrow> string" where
  "dec_of_nat n = (if n < 10 then [digit_char n] else dec_of_nat (n div 10) @ [digit_char (n mod 10)])"
  by pat_completeness auto
termination
  by (relation "measure id") auto

declare dec_of_nat.simps [simp del]

lemma digit_char_decimal: "d < 10 \<Longrightarrow> digit_char d \<in> set ''0123456789''"
proof -
  assume "d < 10"
  then have "d \<in> {0, 1, 2, 3, 4, 5, 6, 7, 8, 9}" by auto
  then show ?thesis by (auto simp: digit_char_def)
qed

lemma dec_of_nat_digits: "set (dec_of_nat n) \<subseteq> set ''0123456789''"
proof (induction n rule: dec_of_nat.induct)
  case (1 n)
  show ?case
  proof (cases "n < 10")
    case True
    then show ?thesis using digit_char_decimal[of n] by (subst dec_of_nat.simps) simp
  next
    case False
    have "n mod 10 < 10" by simp
    then show ?thesis
      using False 1 digit_char_decimal[of "n mod 10"] by (subst dec_of_nat.simps) simp
  qed
qed

text \<open>
  \<^verbatim>\<open>v[k]\<close> for a value that is not null or undefined: an own property of an object, an
  element of an array or a character of a string under its index, the \<^verbatim>\<open>length\<close> of an
  array or string, and \<^verbatim>\<open>undefined\<close> otherwise.  Properties inherited from a prototype
  (methods such as \<^verbatim>\<open>toString\<close>) are outside the model.
\<close>

fun js_prop :: "jsval \<Rightarrow> string \<Rightarrow> jsval" where
  "js_prop (JObj _ fs) k = (case map_of fs k of Some v \<Rightarrow> v | None \<Rightarrow> JUndefined)"
| "js_prop (JArr _ xs) k =
     (case map_of (zip (map dec_of_nat [0..<length xs]) xs) k of
        Some v \<Rightarrow> v
      | None \<Rightarrow> if k = ''length'' then JNum (int (length xs)) else JUndefined)"
| "js_prop (JStr s) k =
     (case map_of (zip (map dec_of_nat [0..<length s]) (map (\<lambda>c. JStr [c]) s)) k of
        Some v \<Rightarrow> v
      | None \<Rightarrow> if k = ''length'' then JNum (int (length s)) else JUndefined)"
| "js_prop _ _ = JUndefined"

text \<open>
  The keys of \<^verbatim>\<open>Object.entries(v)\<close>: the field names of an object, the indices of an
  array or string, and none for a number or boolean.
\<close>

fun js_keys :: "jsval \<Rightarrow> string list" where
  "js_keys (JObj _ fs) = map fst fs"
| "js_keys (JArr _ xs) = map dec_of_nat [0..<length xs]"
| "js_keys (JStr s) = map dec_of_nat [0..<length s]"
| "js_keys _ = []"

text \<open>
  A name with a character that is no digit, other than \<^verbatim>\<open>length\<close>, is no property of an
  array or string: so for the names the code reads, \<^verbatim>\<open>type\<close>, \<^verbatim>\<open>id\<close>, \<^verbatim>\<open>key\<close>,
  \<^verbatim>\<open>value\<close>, \<^verbatim>\<open>streaming\<close> and \<^verbatim>\<open>children\<close>.
\<close>

lemma map_of_index_keys:
  assumes "\<not> set k \<subseteq> set ''0123456789''"
  shows "map_of (zip (map dec_of_nat ns) vs) k = None"
proof -
  have "k \<notin> set (map dec_of_nat ns)" using assms dec_of_nat_digits by auto
  then have "k \<notin> fst ` set (zip (map dec_of_nat ns) vs)"
    by (auto dest: set_zip_leftD)
  then show ?thesis by (simp add: map_of_eq_None_iff)
qed

lemma js_prop_array_name:
  "\<not> set k \<subseteq> set ''0123456789'' \<Longrightarrow> k \<noteq> ''length'' \<Longrightarrow> js_prop (JArr m xs) k = JUndefined"
  by (simp add: map_of_index_keys)

lemma js_prop_string_name:
  "\<not> set k \<subseteq> set ''0123456789'' \<Longrightarrow> k \<noteq> ''length'' \<Longrightarrow> js_prop (JStr s) k = JUndefined"
  by (simp add: map_of_index_keys)

declare js_prop.simps(2,3) [simp del]
declare js_prop_array_name [simp] js_prop_string_name [simp]

fun is_string :: "jsval \<Rightarrow> bool" where
  "is_string (JStr _) = True"
| "is_string _ = False"

fun is_array :: "jsval \<Rightarrow> bool" where
  "is_array (JArr _ _) = True"
| "is_array _ = False"

fun elems :: "jsval \<Rightarrow> jsval list" where
  "elems (JArr _ xs) = xs"
| "elems _ = []"

fun is_nullish :: "jsval \<Rightarrow> bool" where
  "is_nullish JUndefined = True"
| "is_nullish JNull = True"
| "is_nullish _ = False"

text \<open>\<^verbatim>\<open>v ?? d\<close>\<close>

definition nullish_or :: "jsval \<Rightarrow> jsval \<Rightarrow> jsval" where
  "nullish_or v d = (if is_nullish v then d else v)"

text \<open>\<^verbatim>\<open>typeof v === "object" && v\<close>\<close>

fun typeof_object :: "jsval \<Rightarrow> bool" where
  "typeof_object (JObj _ _) = True"
| "typeof_object (JArr _ _) = True"
| "typeof_object _ = False"

text \<open>\<^verbatim>\<open>"type" in v\<close> for an object or array \<^verbatim>\<open>v\<close>\<close>

fun has_type_prop :: "jsval \<Rightarrow> bool" where
  "has_type_prop (JObj _ fs) = (map_of fs ''type'' \<noteq> None)"
| "has_type_prop _ = False"

text \<open>\<^verbatim>\<open>!!v\<close>\<close>

fun truthy :: "jsval \<Rightarrow> bool" where
  "truthy JUndefined = False"
| "truthy JNull = False"
| "truthy (JBool b) = b"
| "truthy (JNum n) = (n \<noteq> 0)"
| "truthy (JStr s) = (s \<noteq> [])"
| "truthy (JArr _ _) = True"
| "truthy (JObj _ _) = True"

text \<open>\<^verbatim>\<open>n.toString(16)\<close> for a non-negative integer\<close>

function hex_of_nat :: "nat \<Rightarrow> string" where
  "hex_of_nat n = (if n < 16 then [digit_char n] else hex_of_nat (n div 16) @ [digit_char (n mod 16)])"
  by pat_completeness auto
termination
  by (relation "measure id") auto

declare hex_of_nat.simps [simp del]

fun join_comma :: "string list \<Rightarrow> string" where
  "join_comma [] = []"
| "join_comma [x] = x"
| "join_comma (x # y # r) = x @ '','' @ join_comma (y # r)"

text \<open>
  \<^verbatim>\<open>String(v)\<close>; the decimal rendering of a number is the one JavaScript uses below
  \<open>10\<^sup>2\<^sup>1\<close> in absolute value.
\<close>

fun js_String :: "jsval \<Rightarrow> string" where
  "js_String JUndefined = ''undefined''"
| "js_String JNull = ''null''"
| "js_String (JBool b) = (if b then ''true'' else ''false'')"
| "js_String (JNum n) = (if n < 0 then CHR ''-'' # dec_of_nat (nat (- n)) else dec_of_nat (nat n))"
| "js_String (JStr s) = s"
| "js_String (JArr _ xs) = join_comma (map (\<lambda>x. if is_nullish x then [] else js_String x) xs)"
| "js_String (JObj _ _) = ''[object Object]''"

subsection \<open>Records used as dictionaries\<close>

text \<open>
  A \<^verbatim>\<open>Record<string, T>\<close> created as \<^verbatim>\<open>{}\<close> and filled by assignment: the list holds
  its own properties in insertion order.  Assigning to the key \<^verbatim>\<open>__proto__\<close> of such an
  object creates no own property.  \<^verbatim>\<open>Object.entries\<close> and \<^verbatim>\<open>Object.values\<close> list the
  keys that are array indices first, in ascending numeric order, then the other keys in
  insertion order.  Lookups are of own properties; names inherited from
  \<^verbatim>\<open>Object.prototype\<close> are outside the model.
\<close>

type_synonym 'v js_record = "(string \<times> 'v) list"

definition rec_get :: "'v js_record \<Rightarrow> string \<Rightarrow> 'v option" where
  "rec_get r k = map_of r k"

definition rec_set :: "string \<Rightarrow> 'v \<Rightarrow> 'v js_record \<Rightarrow> 'v js_record" where
  "rec_set k v r =
     (if k = ''__proto__'' then r
      else if map_of r k = None then r @ [(k, v)]
      else map (\<lambda>(k', v'). if k' = k then (k', v) else (k', v')) r)"

definition rec_delete :: "string \<Rightarrow> 'v js_record \<Rightarrow> 'v js_record" where
  "rec_delete k r = filter (\<lambda>(k', v'). k' \<noteq> k) r"

definition is_digit :: "char \<Rightarrow> bool" where
  "is_digit c = (48 \<le> (of_char c :: int) \<and> (of_char c :: int) \<le> 57)"

definition dec_value :: "string \<Rightarrow> int" where
  "dec_value s = foldl (\<lambda>n c. 10 * n + ((of_char c :: int) - 48)) 0 s"

definition is_array_index :: "string \<Rightarrow> bool" where
  "is_array_index s =
     (s \<noteq> [] \<and> list_all is_digit s \<and> (length s = 1 \<or> hd s \<noteq> CHR ''0'')
      \<and> dec_value s < 4294967295)"

definition rec_entries :: "'v js_record \<Rightarrow> (string \<times> 'v) list" where
  "rec_entries r =
     sort_key (\<lambda>(k, v). dec_value k) (filter (\<lambda>(k, v). is_array_index k) r)
     @ filter (\<lambda>(k, v). \<not> is_array_index k) r"

definition rec_values :: "'v js_record \<Rightarrow> 'v list" where
  "rec_values r = map snd (rec_entries r)"

section \<open>Widget diff engine (\<^verbatim>\<open>helpers/server.helper.ts\<close>)\<close>

datatype exn =
    TypeError
  | NodeNotPresentError string
  | NonCumulativeUpdateError string
  | ThreadNotFoundError string
  | NotUserMessageError string
  | CustomStreamError string bool
  | StreamError bool
  | OtherError string

text \<open>
  \<^verbatim>\<open>TypeError\<close> is what the runtime raises on a property read of \<^verbatim>\<open>null\<close> or
  \<^verbatim>\<open>undefined\<close> and on \<^verbatim>\<open>for ... of\<close> over a value that is not iterable.  The two
  \<^verbatim>\<open>throw new Error(...)\<close> of \<^verbatim>\<open>diffWidget\<close> are \<open>NodeNotPresentError\<close> (the spec's
  StructuralError) and \<open>NonCumulativeUpdateError\<close>, each with the node id.
  \<open>CustomStreamError message allowRetry\<close> and \<open>StreamError allowRetry\<close> are the two
  classes of \<^verbatim>\<open>errors.ts\<close>; every other constructor is an exception of another class.
\<close>

definition isStreamingText :: "jsval \<Rightarrow> bool" where
  "isStreamingText component =
     (strict_eq (js_prop component ''type'') (JStr ''Text'')
      \<and> is_string (js_prop component ''value''))"

text \<open>The \<^verbatim>\<open>Set\<close> of field names: the keys of both records, each once, first seen first.\<close>

definition field_set :: "jsval \<Rightarrow> jsval \<Rightarrow> string list" where
  "field_set before after = rev (remdups (rev (js_keys before @ js_keys after)))"

lemma size_map_of: "map_of fs k = Some v \<Longrightarrow> size v < size (JObj n fs)"
  by (induction fs) (auto split: if_splits)

lemma map_of_zip_mem: "map_of (zip ks vs) k = Some v \<Longrightarrow> v \<in> set vs"
  by (auto dest: map_of_SomeD set_zip_rightD)

lemma size_elem: "x \<in> set xs \<Longrightarrow> size x < size (JArr m xs)"
  by (simp add: less_Suc_eq_le size_list_estimation')

lemma size_js_prop_le: "size (js_prop v k) \<le> size v"
proof (cases v)
  case (JObj n fs)
  then show ?thesis
    by (auto split: option.splits dest: size_map_of[where n=0] simp: less_imp_le)
next
  case (JArr m xs)
  then show ?thesis
    by (auto simp: js_prop.simps split: option.splits
        dest!: map_of_zip_mem size_elem[where m=m] simp: less_imp_le)
next
  case (JStr x)
  then show ?thesis
    by (auto simp: js_prop.simps split: option.splits dest!: map_of_zip_mem)
qed simp_all

lemma size_js_prop_object: "typeof_object (js_prop v k) \<Longrightarrow> size (js_prop v k) < size v"
proof (cases v)
  case (JObj n fs)
  assume "typeof_object (js_prop v k)"
  then show ?thesis using JObj
    by (auto split: option.splits dest: size_map_of[where n=n])
next
  case (JArr m xs)
  assume "typeof_object (js_prop v k)"
  then show ?thesis using JArr
    by (auto simp: js_prop.simps split: option.splits if_splits
        dest!: map_of_zip_mem size_elem[where m=m])
next
  case (JStr x)
  assume "typeof_object (js_prop v k)"
  then show ?thesis using JStr
    by (auto simp: js_prop.simps split: option.splits if_splits dest!: map_of_zip_mem)
qed simp_all

lemma size_elems: "x \<in> set (elems v) \<Longrightarrow> size x < size v"
  by (cases v) (auto simp: less_Suc_eq_le size_list_estimation')

text \<open>
  \<^verbatim>\<open>fullReplace\<close> and its local closure \<^verbatim>\<open>fullReplaceValue\<close>.  The \<^verbatim>\<open>for\<close> loops
  that return \<^verbatim>\<open>true\<close> at the first hit are \<open>list_ex\<close>; a \<^verbatim>\<open>continue\<close> is a field
  that contributes \<open>False\<close>.
\<close>

function fullReplace :: "jsval \<Rightarrow> jsval \<Rightarrow> bool"
  and fullReplaceValue :: "jsval \<Rightarrow> jsval \<Rightarrow> bool" where
  "fullReplace before after =
     (if strict_neq (js_prop before ''type'') (js_prop after ''type'')
         \<or> strict_neq (js_prop before ''id'') (js_prop after ''id'')
         \<or> strict_neq (js_prop before ''key'') (js_prop after ''key'')
      then True
      else list_ex (\<lambda>field.
             if isStreamingText before \<and> isStreamingText after \<and> field = ''value''
                \<and> prefix (js_String (nullish_or (js_prop before ''value'') (JStr [])))
                          (js_String (js_prop after ''value''))
             then False
             else if isStreamingText before \<and> isStreamingText after \<and> field = ''streaming''
             then False
             else fullReplaceValue (js_prop before field) (js_prop after field))
           (field_set before after))"
| "fullReplaceValue beforeValue afterValue =
     (if is_array beforeValue \<and> is_array afterValue then
        (if length (elems beforeValue) \<noteq> length (elems afterValue) then True
         else list_ex (\<lambda>(b, a). fullReplaceValue b a)
                (zip (elems beforeValue) (elems afterValue)))
      else if strict_neq beforeValue afterValue then
        (if typeof_object beforeValue \<and> typeof_object afterValue
            \<and> has_type_prop beforeValue \<and> has_type_prop afterValue
         then fullReplace beforeValue afterValue
         else True)
      else False)"
  by pat_completeness auto
termination
proof (relation "measure (\<lambda>x. case x of
          Inl (b, a) \<Rightarrow> 2 * (size b + size a) + 2
        | Inr (b, a) \<Rightarrow> (if typeof_object b \<and> typeof_object a
                         then 2 * (size b + size a) + 3 else 0))", goal_cases)
  case 1
  then show ?case by simp
next
  case (2 before after field)
  show ?case
    using size_js_prop_object[of before field] size_js_prop_object[of after field] by auto
next
  case (3 beforeValue afterValue x b a)
  then have "b \<in> set (elems beforeValue)" "a \<in> set (elems afterValue)"
    by (auto dest: set_zip_leftD set_zip_rightD)
  then have "size b < size beforeValue" "size a < size afterValue"
    using size_elems by blast+
  moreover have "typeof_object beforeValue"
    using 3(1) by (cases beforeValue) simp_all
  moreover have "typeof_object afterValue"
    using 3(1) by (cases afterValue) simp_all
  ultimately show ?case by simp
next
  case (4 beforeValue afterValue)
  then show ?case by simp
qed

declare fullReplace.simps [simp del] fullReplaceValue.simps [simp del]

datatype assistant_message_content =
  AssistantMessageContent (content_text: string) (content_annotations: "jsval list")

text \<open>
  The payload of a \<^verbatim>\<open>thread.item.updated\<close> event (\<^verbatim>\<open>types.ts\<close>): the two widget
  updates and the four assistant-message updates, the latter with their
  \<^verbatim>\<open>content_index\<close> first.
\<close>

datatype item_update =
    WidgetStreamingTextValueDelta (component_id: string) (delta: string) (done_flag: bool)
  | WidgetRootUpdated jsval
  | AssistantMessageContentPartAdded nat assistant_message_content
  | AssistantMessageContentPartTextDelta nat string
  | AssistantMessageContentPartAnnotationAdded nat nat jsval
  | AssistantMessageContentPartDone nat assistant_message_content

text \<open>
  \<^verbatim>\<open>findAllStreamingTextComponents\<close>: \<open>recurse\<close> threads the record \<^verbatim>\<open>components\<close>.
  \<^verbatim>\<open>comp.children ?? []\<close> (\<open>node\<close> is the source's \<^verbatim>\<open>comp\<close>) is iterated by \<^verbatim>\<open>for ... of\<close>: an array gives its
  elements, a string gives one-character strings (on which \<open>recurse\<close> does nothing), and
  any other value is not iterable.
\<close>

function recurse :: "jsval \<Rightarrow> jsval js_record \<Rightarrow> exn + jsval js_record"
  and recurse_children :: "jsval list \<Rightarrow> jsval js_record \<Rightarrow> exn + jsval js_record" where
  "recurse node components =
     (if is_nullish node then Inl TypeError
      else
        let components1 =
              (if isStreamingText node \<and> truthy (js_prop node ''id'')
               then rec_set (js_String (js_prop node ''id'')) node components
               else components);
            children = nullish_or (js_prop node ''children'') (JArr 0 [])
        in if is_array children then recurse_children (elems children) components1
           else if is_string children then Inr components1
           else Inl TypeError)"
| "recurse_children [] components = Inr components"
| "recurse_children (child # rest) components =
     (case recurse child components of
        Inl e \<Rightarrow> Inl e
      | Inr components1 \<Rightarrow> recurse_children rest components1)"
  by pat_completeness auto
termination
proof (relation "measure (\<lambda>x. case x of
          Inl (node, r) \<Rightarrow> 2 * size node + 1
        | Inr (cs, r) \<Rightarrow> 2 * size_list size cs)", goal_cases)
  case 1
  then show ?case by simp
next
  case (2 node components x xa)
  show ?case
  proof (cases "is_nullish (js_prop node ''children'')")
    case True
    then show ?thesis using 2 by (simp add: nullish_or_def)
  next
    case False
    then have xa: "xa = js_prop node ''children''" using 2 by (simp add: nullish_or_def)
    have "is_array xa" using 2 by simp
    then obtain n cs where c: "xa = JArr n cs"
      by (cases xa) auto
    have "size (JArr n cs) \<le> size node"
      using size_js_prop_le[of node "''children''"] c xa by simp
    then show ?thesis using c by simp
  qed
next
  case (3 child rest components)
  then show ?case by simp
next
  case (4 child rest components x2)
  then show ?case by simp
qed

declare recurse.simps [simp del]

definition findAllStreamingTextComponents :: "jsval \<Rightarrow> exn + jsval js_record" where
  "findAllStreamingTextComponents component = recurse component []"

text \<open>The loop over \<^verbatim>\<open>Object.entries(afterNodes)\<close>, with the list \<^verbatim>\<open>deltas\<close> so far.\<close>

fun diff_nodes ::
  "jsval js_record \<Rightarrow> (string \<times> jsval) list \<Rightarrow> item_update list \<Rightarrow> exn + item_update list" where
  "diff_nodes beforeNodes [] deltas = Inr deltas"
| "diff_nodes beforeNodes ((nid, afterNode) # rest) deltas =
     (case rec_get beforeNodes nid of
        None \<Rightarrow> Inl (NodeNotPresentError nid)
      | Some beforeNode \<Rightarrow>
          let beforeValue = js_String (nullish_or (js_prop beforeNode ''value'') (JStr []));
              afterValue = js_String (nullish_or (js_prop afterNode ''value'') (JStr []))
          in if beforeValue \<noteq> afterValue then
               (if prefix beforeValue afterValue then
                  diff_nodes beforeNodes rest
                    (deltas @ [WidgetStreamingTextValueDelta nid
                                 (drop (length beforeValue) afterValue)
                                 (\<not> truthy (js_prop afterNode ''streaming''))])
                else Inl (NonCumulativeUpdateError nid))
             else diff_nodes beforeNodes rest deltas)"

definition diffWidget :: "jsval \<Rightarrow> jsval \<Rightarrow> exn + item_update list" where
  "diffWidget before after =
     (if is_nullish before \<or> is_nullish after then Inl TypeError
      else if fullReplace before after then Inr [WidgetRootUpdated after]
      else case findAllStreamingTextComponents before of
             Inl e \<Rightarrow> Inl e
           | Inr beforeNodes \<Rightarrow>
               (case findAllStreamingTextComponents after of
                  Inl e \<Rightarrow> Inl e
                | Inr afterNodes \<Rightarrow> diff_nodes beforeNodes (rec_entries afterNodes) []))"

section \<open>Threads, items and protocol events (\<^verbatim>\<open>types.ts\<close>)\<close>

datatype thread_status = Active | Locked "string option" | Closed "string option"

record thread_metadata =
  tm_id :: string
  tm_title :: "string option"
  tm_created_at :: nat
  tm_status :: "thread_status option"
  tm_metadata :: "jsval option"

datatype tool_call_status = Pending | Completed

text \<open>
  A thread item is its three common fields and the fields of its kind.  The contents of a
  user message, of a workflow, of a task and of an attachment are carried as JSON values:
  no function modelled here looks inside them.
\<close>

datatype item_body =
    UserMessage jsval
  | AssistantMessage "assistant_message_content list"
  | Widget jsval "string option"
  | ClientToolCall string string jsval jsval tool_call_status
  | HiddenContext string
  | SDKHiddenContext string
  | Workflow jsval
  | Task jsval
  | Attachment jsval

record thread_item =
  item_id :: string
  thread_id :: string
  created_at :: nat
  body :: item_body

text \<open>The \<^verbatim>\<open>type\<close> discriminator of an item.\<close>

definition item_type :: "thread_item \<Rightarrow> string" where
  "item_type item =
     (case body item of
        UserMessage _ \<Rightarrow> ''user_message''
      | AssistantMessage _ \<Rightarrow> ''assistant_message''
      | Widget _ _ \<Rightarrow> ''widget''
      | ClientToolCall _ _ _ _ _ \<Rightarrow> ''client_tool_call''
      | HiddenContext _ \<Rightarrow> ''hidden_context''
      | SDKHiddenContext _ \<Rightarrow> ''sdk_hidden_context''
      | Workflow _ \<Rightarrow> ''workflow''
      | Task _ \<Rightarrow> ''task''
      | Attachment _ \<Rightarrow> ''attachment'')"

record 'a page =
  page_data :: "'a list"
  page_has_more :: bool
  page_after :: "string option"

record thread =
  thread_meta :: thread_metadata
  thread_items :: "thread_item page"

datatype error_code = stream_error | custom

datatype event =
    ThreadCreatedEvent thread
  | ThreadUpdatedEvent thread
  | ThreadItemAddedEvent thread_item
  | ThreadItemUpdatedEvent string item_update
  | ThreadItemDoneEvent thread_item
  | ThreadItemRemovedEvent string
  | ThreadItemReplacedEvent thread_item
  | StreamOptionsEvent bool
  | ProgressUpdateEvent string
  | ClientEffectEvent string "jsval option"
  | ErrorEvent error_code "string option" "bool option"

text \<open>
  \<open>StreamOptionsEvent allow_cancel\<close>; \<open>ErrorEvent code message allowRetry\<close>, an absent
  field being \<open>None\<close>.
\<close>

subsection \<open>Identifier generation (\<^verbatim>\<open>store.ts\<close>)\<close>

datatype store_item_type =
  thread_t | message_t | tool_call_t | workflow_t | task_t | attachment_t | sdk_hidden_context_t

fun ID_PREFIXES :: "store_item_type \<Rightarrow> string" where
  "ID_PREFIXES thread_t = ''thr''"
| "ID_PREFIXES message_t = ''msg''"
| "ID_PREFIXES tool_call_t = ''tc''"
| "ID_PREFIXES workflow_t = ''wf''"
| "ID_PREFIXES task_t = ''tsk''"
| "ID_PREFIXES attachment_t = ''atc''"
| "ID_PREFIXES sdk_hidden_context_t = ''shcx''"

text \<open>
  \<^verbatim>\<open>defaultGenerateId\<close> increments the module variable \<^verbatim>\<open>idCounter\<close>: the counter is
  passed in and returned with the identifier.
\<close>

definition defaultGenerateId :: "store_item_type \<Rightarrow> nat \<Rightarrow> string \<times> nat" where
  "defaultGenerateId itemType idCounter =
     (ID_PREFIXES itemType @ ''_'' @ hex_of_nat (idCounter + 1), idCounter + 1)"

section \<open>Streaming widget emitter (\<^verbatim>\<open>streamWidget\<close>)\<close>

text \<open>
  The argument \<^verbatim>\<open>widget\<close> is one widget root or an async generator; the generator is
  the list of the snapshots it yields.  The events a generator function yields before it
  throws reach its consumer, so the result is the list of events and the exception that
  ends it, if any.  \<open>now\<close> is the reading of the clock by \<^verbatim>\<open>new Date()\<close>.  The read
  of \<^verbatim>\<open>widget[Symbol.asyncIterator]\<close> throws on \<^verbatim>\<open>null\<close> and \<^verbatim>\<open>undefined\<close>, after the
  identifier is generated.
\<close>

datatype widget_source = SingleWidget jsval | WidgetGenerator "jsval list"

text \<open>The \<^verbatim>\<open>while (true)\<close> loop and the final \<^verbatim>\<open>thread.item.done\<close>.\<close>

fun stream_updates ::
  "string \<Rightarrow> thread_item \<Rightarrow> string option \<Rightarrow> jsval \<Rightarrow> jsval list \<Rightarrow> event list \<times> exn option" where
  "stream_updates itemId item copy lastState [] =
     ([ThreadItemDoneEvent (item\<lparr>body := Widget lastState copy\<rparr>)], None)"
| "stream_updates itemId item copy lastState (nextState # rest) =
     (if \<not> truthy nextState
      then ([ThreadItemDoneEvent (item\<lparr>body := Widget lastState copy\<rparr>)], None)
      else case diffWidget lastState nextState of
             Inl e \<Rightarrow> ([], Some e)
           | Inr updates \<Rightarrow>
               (case stream_updates itemId item copy nextState rest of
                  (events, err) \<Rightarrow> (map (ThreadItemUpdatedEvent itemId) updates @ events, err)))"

definition streamWidget ::
  "thread_metadata \<Rightarrow> widget_source \<Rightarrow> string option \<Rightarrow> nat \<Rightarrow> nat
     \<Rightarrow> (event list \<times> exn option) \<times> nat" where
  "streamWidget thread widget copyText now idCounter =
     (case defaultGenerateId message_t idCounter of
        (itemId, idCounter1) \<Rightarrow>
          (case widget of
             SingleWidget w \<Rightarrow>
               (if is_nullish w then (([], Some TypeError), idCounter1)
                else (([ThreadItemDoneEvent
                          \<lparr>item_id = itemId, thread_id = tm_id thread, created_at = now,
                           body = Widget w copyText\<rparr>], None), idCounter1))
           | WidgetGenerator [] \<Rightarrow> (([], None), idCounter1)
           | WidgetGenerator (initialState # rest) \<Rightarrow>
               (if \<not> truthy initialState then (([], None), idCounter1)
                else
                  let item = \<lparr>item_id = itemId, thread_id = tm_id thread, created_at = now,
                              body = Widget initialState copyText\<rparr>
                  in (case stream_updates itemId item copyText initialState rest of
                        (events, err) \<Rightarrow>
                          ((ThreadItemAddedEvent item # events, err), idCounter1)))))"

section \<open>The store (\<^verbatim>\<open>InMemoryStore\<close>)\<close>

text \<open>
  \<^verbatim>\<open>Store\<close> is an abstract class.  The store modelled is the repository's
  \<^verbatim>\<open>InMemoryStore\<close> of the example application: a map from thread identifiers to the
  thread's metadata and its list of items, oldest first.  Only the operations the server
  functions below call are modelled.
\<close>

type_synonym store = "string \<rightharpoonup> thread_metadata \<times> thread_item list"

datatype order = asc | desc

definition DEFAULT_PAGE_SIZE :: nat where
  "DEFAULT_PAGE_SIZE = 20"

definition DEFAULT_ERROR_MESSAGE :: string where
  "DEFAULT_ERROR_MESSAGE = ''An error occurred when generating a response.''"

text \<open>\<^verbatim>\<open>loadThread\<close> creates a thread that does not exist yet and never throws.\<close>

definition loadThread :: "string \<Rightarrow> nat \<Rightarrow> store \<Rightarrow> thread_metadata \<times> store" where
  "loadThread threadId now st =
     (case st threadId of
        None \<Rightarrow>
          (let created = \<lparr>tm_id = threadId, tm_title = None, tm_created_at = now,
                          tm_status = None, tm_metadata = None\<rparr>
           in (created, st(threadId \<mapsto> (created, []))))
      | Some (meta, items) \<Rightarrow> (meta, st))"

text \<open>\<^verbatim>\<open>(thr?.items ?? [])\<close>\<close>

definition items_of :: "store \<Rightarrow> string \<Rightarrow> thread_item list" where
  "items_of st threadId = (case st threadId of None \<Rightarrow> [] | Some (meta, items) \<Rightarrow> items)"

text \<open>\<^verbatim>\<open>xs.findIndex(p)\<close>, \<open>None\<close> for \<^verbatim>\<open>-1\<close>\<close>

fun findIndex :: "('a \<Rightarrow> bool) \<Rightarrow> 'a list \<Rightarrow> nat option" where
  "findIndex p [] = None"
| "findIndex p (x # xs) =
     (if p x then Some 0 else (case findIndex p xs of None \<Rightarrow> None | Some i \<Rightarrow> Some (Suc i)))"

text \<open>
  \<^verbatim>\<open>loadThreadItems\<close>: the cursor \<^verbatim>\<open>after\<close> is used when it is truthy, that is neither
  \<^verbatim>\<open>null\<close> nor the empty string, and it is the identifier of a stored item.
\<close>

definition loadThreadItems ::
  "string \<Rightarrow> string option \<Rightarrow> nat \<Rightarrow> order \<Rightarrow> store \<Rightarrow> thread_item page" where
  "loadThreadItems threadId after limit ord st =
     (let all = (if ord = desc then rev (items_of st threadId) else items_of st threadId);
          startIndex =
            (case after of
               None \<Rightarrow> 0
             | Some a \<Rightarrow>
                 (if a = [] then 0
                  else (case findIndex (\<lambda>i. item_id i = a) all of
                          None \<Rightarrow> 0
                        | Some idx \<Rightarrow> idx + 1)));
          slice = take limit (drop startIndex all)
      in \<lparr>page_data = slice,
          page_has_more = (startIndex + limit < length all),
          page_after = (if slice = [] then None else Some (item_id (last slice)))\<rparr>)"

definition addThreadItem :: "string \<Rightarrow> thread_item \<Rightarrow> store \<Rightarrow> exn + store" where
  "addThreadItem threadId item st =
     (case st threadId of
        None \<Rightarrow> Inl (ThreadNotFoundError threadId)
      | Some (meta, items) \<Rightarrow> Inr (st(threadId \<mapsto> (meta, items @ [item]))))"

definition saveItem :: "string \<Rightarrow> thread_item \<Rightarrow> store \<Rightarrow> exn + store" where
  "saveItem threadId item st =
     (case st threadId of
        None \<Rightarrow> Inl (ThreadNotFoundError threadId)
      | Some (meta, items) \<Rightarrow>
          (case findIndex (\<lambda>i. item_id i = item_id item) items of
             Some idx \<Rightarrow> Inr (st(threadId \<mapsto> (meta, items[idx := item])))
           | None \<Rightarrow> Inr (st(threadId \<mapsto> (meta, items @ [item])))))"

definition deleteThreadItem :: "string \<Rightarrow> string \<Rightarrow> store \<Rightarrow> store" where
  "deleteThreadItem threadId itemId st =
     (case st threadId of
        None \<Rightarrow> st
      | Some (meta, items) \<Rightarrow> st(threadId \<mapsto> (meta, filter (\<lambda>i. item_id i \<noteq> itemId) items)))"

section \<open>The server (\<^verbatim>\<open>server.ts\<close>)\<close>

definition isHidden :: "thread_item \<Rightarrow> bool" where
  "isHidden item = (item_type item = ''hidden_context'' \<or> item_type item = ''sdk_hidden_context'')"

definition toThreadResponse :: "thread \<Rightarrow> thread" where
  "toThreadResponse thread =
     \<lparr>thread_meta = thread_meta thread,
      thread_items = (thread_items thread)
        \<lparr>page_data := filter (\<lambda>item. \<not> isHidden item) (page_data (thread_items thread))\<rparr>\<rparr>"

definition loadFullThread :: "string \<Rightarrow> nat \<Rightarrow> store \<Rightarrow> thread \<times> store" where
  "loadFullThread threadId now st =
     (case loadThread threadId now st of
        (threadMeta, st1) \<Rightarrow>
          (\<lparr>thread_meta = threadMeta,
            thread_items = loadThreadItems threadId None DEFAULT_PAGE_SIZE asc st1\<rparr>, st1))"

text \<open>
  The default of \<^verbatim>\<open>getStreamOptions\<close>: \<^verbatim>\<open>{ allow_cancel: true }\<close>.
\<close>

definition getStreamOptions :: "thread_metadata \<Rightarrow> bool" where
  "getStreamOptions thread = True"

subsection \<open>\<^verbatim>\<open>applyAssistantMessageUpdate\<close>\<close>

text \<open>
  The update is cast to an assistant-message update without a check: on a widget update
  \<^verbatim>\<open>content_index\<close> is \<^verbatim>\<open>undefined\<close>, the padding loop does not run and the
  \<^verbatim>\<open>switch\<close> takes its default.
\<close>

definition pad_content :: "assistant_message_content list \<Rightarrow> nat \<Rightarrow> assistant_message_content list" where
  "pad_content content content_index =
     content @ replicate (Suc content_index - length content) (AssistantMessageContent [] [])"

fun applyAssistantMessageUpdate ::
  "assistant_message_content list \<Rightarrow> item_update \<Rightarrow> assistant_message_content list" where
  "applyAssistantMessageUpdate content (AssistantMessageContentPartAdded i c) =
     (pad_content content i)[i := c]"
| "applyAssistantMessageUpdate content (AssistantMessageContentPartTextDelta i d) =
     (let updated = pad_content content i
      in updated[i := AssistantMessageContent (content_text (updated ! i) @ d)
                        (content_annotations (updated ! i))])"
| "applyAssistantMessageUpdate content (AssistantMessageContentPartAnnotationAdded i ai ann) =
     (let updated = pad_content content i;
          annotations = content_annotations (updated ! i)
      in updated[i := AssistantMessageContent (content_text (updated ! i))
                        (if ai \<le> length annotations
                         then take ai annotations @ [ann] @ drop ai annotations
                         else annotations @ [ann])])"
| "applyAssistantMessageUpdate content (AssistantMessageContentPartDone i c) =
     (pad_content content i)[i := c]"
| "applyAssistantMessageUpdate content (WidgetStreamingTextValueDelta _ _ _) = content"
| "applyAssistantMessageUpdate content (WidgetRootUpdated _) = content"

subsection \<open>\<^verbatim>\<open>processEvents\<close>\<close>

text \<open>
  The state of one call: the store and the record \<^verbatim>\<open>pendingItems\<close>.  The parameter
  \<^verbatim>\<open>thread\<close> is never reassigned, so \<^verbatim>\<open>thread !== lastThread\<close> is false at every test
  and \<^verbatim>\<open>saveThread\<close> is never called.
\<close>

type_synonym coordinator_state = "store \<times> thread_item js_record"

definition buildThreadResponseWithPending ::
  "string \<Rightarrow> nat \<Rightarrow> coordinator_state \<Rightarrow> thread \<times> store" where
  "buildThreadResponseWithPending threadId now s =
     (case loadFullThread threadId now (fst s) of
        (fullThread, st1) \<Rightarrow>
          (let seen = map item_id (page_data (thread_items fullThread));
               pendingList = filter (\<lambda>item. item_id item \<notin> set seen) (rec_values (snd s));
               mergedItems = (thread_items fullThread)
                 \<lparr>page_data := page_data (thread_items fullThread) @ pendingList\<rparr>
           in (toThreadResponse (fullThread\<lparr>thread_items := mergedItems\<rparr>), st1)))"

text \<open>
  The \<^verbatim>\<open>switch\<close> of one iteration: the new store and pending record with the flag
  \<^verbatim>\<open>emitThreadUpdate\<close>, or the exception a store operation throws.
\<close>

fun apply_event ::
  "string \<Rightarrow> event \<Rightarrow> coordinator_state \<Rightarrow> exn + (coordinator_state \<times> bool)" where
  "apply_event threadId (ThreadItemDoneEvent item) (st, pendingItems) =
     (case addThreadItem threadId item st of
        Inl e \<Rightarrow> Inl e
      | Inr st1 \<Rightarrow> Inr ((st1, rec_delete (item_id item) pendingItems), True))"
| "apply_event threadId (ThreadItemRemovedEvent itemId) (st, pendingItems) =
     Inr ((deleteThreadItem threadId itemId st, rec_delete itemId pendingItems), True)"
| "apply_event threadId (ThreadItemReplacedEvent item) (st, pendingItems) =
     (case saveItem threadId item st of
        Inl e \<Rightarrow> Inl e
      | Inr st1 \<Rightarrow> Inr ((st1, rec_delete (item_id item) pendingItems), True))"
| "apply_event threadId (ThreadItemAddedEvent item) (st, pendingItems) =
     Inr ((st, rec_set (item_id item) item pendingItems), True)"
| "apply_event threadId (ThreadItemUpdatedEvent itemId update) (st, pendingItems) =
     (case rec_get pendingItems itemId of
        None \<Rightarrow> Inr ((st, pendingItems), False)
      | Some pending \<Rightarrow>
          (case body pending of
             AssistantMessage content \<Rightarrow>
               Inr ((st, rec_set (item_id pending)
                           (pending\<lparr>body := AssistantMessage (applyAssistantMessageUpdate content update)\<rparr>)
                           pendingItems), False)
           | _ \<Rightarrow> Inr ((st, pendingItems), False)))"
| "apply_event threadId _ (st, pendingItems) = Inr ((st, pendingItems), False)"

definition shouldSwallowEvent :: "event \<Rightarrow> bool" where
  "shouldSwallowEvent ev =
     (case ev of
        ThreadItemDoneEvent item \<Rightarrow>
          item_type item = ''hidden_context'' \<or> item_type item = ''sdk_hidden_context''
      | _ \<Rightarrow> False)"

text \<open>One iteration of \<^verbatim>\<open>for await (const event of stream())\<close>: the events it yields.\<close>

definition handle_event ::
  "string \<Rightarrow> nat \<Rightarrow> event \<Rightarrow> coordinator_state \<Rightarrow> exn + (event list \<times> coordinator_state)" where
  "handle_event threadId now ev s =
     (case apply_event threadId ev s of
        Inl e \<Rightarrow> Inl e
      | Inr (s1, emitThreadUpdate) \<Rightarrow>
          (let forwarded = (if shouldSwallowEvent ev then [] else [ev])
           in if emitThreadUpdate
              then (case buildThreadResponseWithPending threadId now s1 of
                      (fullThread, st2) \<Rightarrow>
                        Inr (forwarded @ [ThreadUpdatedEvent fullThread], (st2, snd s1)))
              else Inr (forwarded, s1)))"

text \<open>The \<^verbatim>\<open>catch\<close> block.\<close>

fun error_event :: "exn \<Rightarrow> event" where
  "error_event (CustomStreamError message allowRetry) = ErrorEvent custom (Some message) (Some allowRetry)"
| "error_event (StreamError allowRetry) = ErrorEvent stream_error None (Some allowRetry)"
| "error_event _ = ErrorEvent stream_error (Some DEFAULT_ERROR_MESSAGE) (Some True)"

definition catch_block ::
  "string \<Rightarrow> nat \<Rightarrow> exn \<Rightarrow> coordinator_state \<Rightarrow> event list \<times> coordinator_state" where
  "catch_block threadId now e s =
     (case buildThreadResponseWithPending threadId now s of
        (fullThread, st1) \<Rightarrow> ([error_event e, ThreadUpdatedEvent fullThread], (st1, snd s)))"

text \<open>
  A turn source is the list of events it yields and the exception that ends it, if any.
  An exception thrown by a store operation inside the \<^verbatim>\<open>try\<close> block reaches the same
  \<^verbatim>\<open>catch\<close> block as one thrown by the turn source.  No operation of the \<^verbatim>\<open>catch\<close>
  block throws on this store, so the generator always completes.
\<close>

type_synonym turn_source = "event list \<times> exn option"

fun process_loop ::
  "string \<Rightarrow> nat \<Rightarrow> event list \<Rightarrow> exn option \<Rightarrow> coordinator_state
     \<Rightarrow> event list \<times> coordinator_state" where
  "process_loop threadId now [] None s =
     (case buildThreadResponseWithPending threadId now s of
        (fullThreadAtEnd, st1) \<Rightarrow> ([ThreadUpdatedEvent fullThreadAtEnd], (st1, snd s)))"
| "process_loop threadId now [] (Some e) s = catch_block threadId now e s"
| "process_loop threadId now (ev # evs) ending s =
     (case handle_event threadId now ev s of
        Inl e \<Rightarrow> catch_block threadId now e s
      | Inr (out, s1) \<Rightarrow>
          (case process_loop threadId now evs ending s1 of
             (outs, s2) \<Rightarrow> (out @ outs, s2)))"

definition processEvents ::
  "thread_metadata \<Rightarrow> nat \<Rightarrow> turn_source \<Rightarrow> store \<Rightarrow> event list \<times> coordinator_state" where
  "processEvents thread now stream st =
     (case process_loop (tm_id thread) now (fst stream) (snd stream) (st, []) of
        (outs, s) \<Rightarrow> (StreamOptionsEvent (getStreamOptions thread) # outs, s))"

subsection \<open>\<^verbatim>\<open>handleStreamCancelled\<close>\<close>

text \<open>
  \<^verbatim>\<open>s.trim()\<close> removes white space and line terminators; in the 8-bit range these are
  the code units 9 to 13, 32 and 160.  \<^verbatim>\<open>!content.text?.trim()\<close> holds when nothing
  else is in the text.
\<close>

definition is_space :: "char \<Rightarrow> bool" where
  "is_space c = ((of_char c :: nat) \<in> {9, 10, 11, 12, 13, 32, 160})"

definition blank :: "string \<Rightarrow> bool" where
  "blank s = list_all is_space s"

definition isEmpty :: "assistant_message_content list \<Rightarrow> bool" where
  "isEmpty content = (length content = 0 \<or> list_all (\<lambda>c. blank (content_text c)) content)"

text \<open>The \<^verbatim>\<open>for\<close> loop over \<^verbatim>\<open>pendingAssistantMessages\<close>.\<close>

fun persist_pending :: "string \<Rightarrow> thread_item list \<Rightarrow> store \<Rightarrow> exn + store" where
  "persist_pending threadId [] st = Inr st"
| "persist_pending threadId (item # rest) st =
     (case body item of
        AssistantMessage content \<Rightarrow>
          (if \<not> isEmpty content
           then (case addThreadItem threadId item st of
                   Inl e \<Rightarrow> Inl e
                 | Inr st1 \<Rightarrow> persist_pending threadId rest st1)
           else persist_pending threadId rest st)
      | _ \<Rightarrow> persist_pending threadId rest st)"

definition handleStreamCancelled ::
  "thread_metadata \<Rightarrow> thread_item list \<Rightarrow> nat \<Rightarrow> store \<times> nat \<Rightarrow> exn + store \<times> nat" where
  "handleStreamCancelled thread pendingItems now s =
     (let pendingAssistantMessages =
            filter (\<lambda>item. item_type item = ''assistant_message'') pendingItems
      in case persist_pending (tm_id thread) pendingAssistantMessages (fst s) of
           Inl e \<Rightarrow> Inl e
         | Inr st1 \<Rightarrow>
             (case defaultGenerateId sdk_hidden_context_t (snd s) of
                (newId, idCounter1) \<Rightarrow>
                  (let hiddenContextItem =
                         \<lparr>item_id = newId, thread_id = tm_id thread, created_at = now,
                          body = SDKHiddenContext
                            ''The user cancelled the stream. Stop responding to the prior request.''\<rparr>
                   in case addThreadItem (tm_id thread) hiddenContextItem st1 of
                        Inl e \<Rightarrow> Inl e
                      | Inr st2 \<Rightarrow> Inr (st2, idCounter1))))"

subsection \<open>\<^verbatim>\<open>items.list\<close>\<close>

text \<open>
  The request parameters \<^verbatim>\<open>after\<close>, \<^verbatim>\<open>limit\<close> and \<^verbatim>\<open>order\<close> are optional:
  \<^verbatim>\<open>params.after ?? null\<close>, \<^verbatim>\<open>params.limit ?? DEFAULT_PAGE_SIZE\<close> and
  \<^verbatim>\<open>params.order ?? "asc"\<close>.
\<close>

definition items_list ::
  "string \<Rightarrow> string option \<Rightarrow> nat option \<Rightarrow> order option \<Rightarrow> store \<Rightarrow> thread_item page" where
  "items_list threadId after limit ord st =
     (let items = loadThreadItems threadId after
                    (case limit of None \<Rightarrow> DEFAULT_PAGE_SIZE | Some l \<Rightarrow> l)
                    (case ord of None \<Rightarrow> asc | Some ordr \<Rightarrow> ordr) st
      in items\<lparr>page_data := filter (\<lambda>item. item_type item \<noteq> ''hidden_context''
                                      \<and> item_type item \<noteq> ''sdk_hidden_context'') (page_data items)\<rparr>)"

subsection \<open>\<^verbatim>\<open>threads.retry_after_item\<close>\<close>

text \<open>
  \<^verbatim>\<open>paginateThreadItemsReverse\<close> is an async generator: it loads a page when its consumer
  asks for the item after the last one of the page before, and it loads no further page
  once the consumer leaves its loop.  The function below is the generator together with
  the \<^verbatim>\<open>for await\<close> loop that consumes it; the body of that loop is the parameter
  \<open>f\<close>, which continues with a new accumulator or leaves the loop with a result.  The
  generator may load pages forever, so the result is an \<open>option\<close>.
\<close>

datatype ('a, 'r) loop_step = Continue 'a | Break 'r

fun for_of :: "('a \<Rightarrow> 'i \<Rightarrow> ('a, 'r) loop_step) \<Rightarrow> 'a \<Rightarrow> 'i list \<Rightarrow> ('a, 'r) loop_step" where
  "for_of f acc [] = Continue acc"
| "for_of f acc (x # xs) =
     (case f acc x of Break r \<Rightarrow> Break r | Continue acc1 \<Rightarrow> for_of f acc1 xs)"

partial_function (option) paginateThreadItemsReverse ::
  "('a \<Rightarrow> thread_item \<Rightarrow> ('a, 'r) loop_step) \<Rightarrow> string \<Rightarrow> store \<Rightarrow> string option \<Rightarrow> 'a
     \<Rightarrow> ('a, 'r) loop_step option" where
  "paginateThreadItemsReverse f threadId st after acc =
     (let items = loadThreadItems threadId after DEFAULT_PAGE_SIZE asc st
      in case for_of f acc (page_data items) of
           Break r \<Rightarrow> Some (Break r)
         | Continue acc1 \<Rightarrow>
             (if \<not> page_has_more items then Some (Continue acc1)
              else paginateThreadItemsReverse f threadId st (page_after items) acc1))"

text \<open>
  The body of the loop of \<^verbatim>\<open>threads.retry_after_item\<close>, with \<^verbatim>\<open>itemsToRemove\<close> as
  the accumulator: it leaves the loop at the target, by \<^verbatim>\<open>throw\<close> when the target is not
  a user message and by \<^verbatim>\<open>break\<close> when it is.
\<close>

definition retry_body ::
  "string \<Rightarrow> thread_item list \<Rightarrow> thread_item
     \<Rightarrow> (thread_item list, exn + thread_item list \<times> thread_item) loop_step" where
  "retry_body target itemsToRemove item =
     (if item_id item = target then
        (if item_type item \<noteq> ''user_message'' then Break (Inl (NotUserMessageError target))
         else Break (Inr (itemsToRemove, item)))
      else Continue (itemsToRemove @ [item]))"

text \<open>
  What a \<^verbatim>\<open>threads.retry_after_item\<close> request does: the events it yields, the exception
  it throws if any, the call of \<^verbatim>\<open>respond\<close> if there is one (the item passed and the
  store at the time of the call), and the store at the end.  \<^verbatim>\<open>respond\<close> is the
  application's turn source.
\<close>

record retry_outcome =
  ro_events :: "event list"
  ro_thrown :: "exn option"
  ro_respond_call :: "(thread_item \<times> store) option"
  ro_store :: store

definition threads_retry_after_item ::
  "(thread_metadata \<Rightarrow> thread_item option \<Rightarrow> turn_source) \<Rightarrow> string \<Rightarrow> string \<Rightarrow> nat \<Rightarrow> store
     \<Rightarrow> retry_outcome option" where
  "threads_retry_after_item respond threadId itemId now st =
     (case loadThread threadId now st of
        (threadMetadata, st1) \<Rightarrow>
          (case paginateThreadItemsReverse (retry_body itemId) threadId st1 None [] of
             None \<Rightarrow> None
           | Some (Break (Inl e)) \<Rightarrow>
               Some \<lparr>ro_events = [], ro_thrown = Some e, ro_respond_call = None, ro_store = st1\<rparr>
           | Some (Continue itemsToRemove) \<Rightarrow>
               Some \<lparr>ro_events = [], ro_thrown = None, ro_respond_call = None, ro_store = st1\<rparr>
           | Some (Break (Inr (itemsToRemove, userMessageItem))) \<Rightarrow>
               (let st2 = foldl (\<lambda>s item. deleteThreadItem threadId (item_id item) s)
                            st1 itemsToRemove
                in case processEvents threadMetadata now
                          (respond threadMetadata (Some userMessageItem)) st2 of
                     (events, s3) \<Rightarrow>
                       Some \<lparr>ro_events = events, ro_thrown = None,
                             ro_respond_call = Some (userMessageItem, st2),
                             ro_store = fst s3\<rparr>)))"

section \<open>The emitter on two snapshots of one text node\<close>

text \<open>
  The snapshots \<^verbatim>\<open>{type: "Text", id: "t", value: ""}\<close> and
  \<^verbatim>\<open>{type: "Text", id: "t", value: "Hello, world", streaming: false}\<close>, each an object
  of its own.
\<close>

definition text_snapshot0 :: "nat \<Rightarrow> jsval" where
  "text_snapshot0 a =
     JObj a [(''type'', JStr ''Text''), (''id'', JStr ''t''), (''value'', JStr '''')]"

definition text_snapshot1 :: "nat \<Rightarrow> jsval" where
  "text_snapshot1 a =
     JObj a [(''type'', JStr ''Text''), (''id'', JStr ''t''), (''value'', JStr ''Hello, world''),
             (''streaming'', JBool False)]"

lemma rec_entries_single: "\<not> is_array_index k \<Longrightarrow> rec_entries [(k, v)] = [(k, v)]"
  by (simp add: rec_entries_def)

lemma not_index_t: "\<not> is_array_index ''t''"
  by (simp add: is_array_index_def is_digit_def)

lemma diff_text_snapshots:
  "diffWidget (text_snapshot0 a) (text_snapshot1 b)
     = Inr [WidgetStreamingTextValueDelta ''t'' ''Hello, world'' True]"
  by (simp add: diffWidget_def text_snapshot0_def text_snapshot1_def fullReplace.simps
      fullReplaceValue.simps isStreamingText_def field_set_def strict_neq_def nullish_or_def
      findAllStreamingTextComponents_def recurse.simps rec_set_def rec_get_def
      rec_entries_single not_index_t)

text \<open>
  Claim C6.  Given a producer that yields exactly these two snapshots, the emitter yields
  exactly three events, in this order: \<^verbatim>\<open>thread.item.added\<close> with the widget of value
  \<^verbatim>\<open>""\<close>, \<^verbatim>\<open>thread.item.updated\<close> with the streaming-text delta
  \<^verbatim>\<open>"Hello, world"\<close> and \<^verbatim>\<open>done = true\<close>, and \<^verbatim>\<open>thread.item.done\<close> with the widget
  of value \<^verbatim>\<open>"Hello, world"\<close>.  The three carry the one identifier generated for the
  call, and no exception ends the sequence.
\<close>

theorem streamWidget_two_snapshots:
  "streamWidget thread (WidgetGenerator [text_snapshot0 a, text_snapshot1 b]) copyText now idCounter
     = (([ThreadItemAddedEvent
            \<lparr>item_id = ''msg_'' @ hex_of_nat (idCounter + 1), thread_id = tm_id thread,
             created_at = now, body = Widget (text_snapshot0 a) copyText\<rparr>,
          ThreadItemUpdatedEvent (''msg_'' @ hex_of_nat (idCounter + 1))
            (WidgetStreamingTextValueDelta ''t'' ''Hello, world'' True),
          ThreadItemDoneEvent
            \<lparr>item_id = ''msg_'' @ hex_of_nat (idCounter + 1), thread_id = tm_id thread,
             created_at = now, body = Widget (text_snapshot1 b) copyText\<rparr>], None),
        idCounter + 1)"
proof -
  have t0: "truthy (text_snapshot0 a)" and t1: "truthy (text_snapshot1 b)"
    by (simp_all add: text_snapshot0_def text_snapshot1_def)
  show ?thesis
    by (simp add: streamWidget_def defaultGenerateId_def t0 t1 diff_text_snapshots)
qed

theorem streamWidget_two_snapshots_witness:
  "streamWidget \<lparr>tm_id = ''thr_test'', tm_title = None, tm_created_at = 0, tm_status = None,
                 tm_metadata = None\<rparr>
     (WidgetGenerator [text_snapshot0 1, text_snapshot1 2]) None 7 0
     = (([ThreadItemAddedEvent
            \<lparr>item_id = ''msg_1'', thread_id = ''thr_test'', created_at = 7,
             body = Widget (text_snapshot0 1) None\<rparr>,
          ThreadItemUpdatedEvent ''msg_1''
            (WidgetStreamingTextValueDelta ''t'' ''Hello, world'' True),
          ThreadItemDoneEvent
            \<lparr>item_id = ''msg_1'', thread_id = ''thr_test'', created_at = 7,
             body = Widget (text_snapshot1 2) None\<rparr>], None), 1)"
  using streamWidget_two_snapshots
    [of "\<lparr>tm_id = ''thr_test'', tm_title = None, tm_created_at = 0, tm_status = None,
          tm_metadata = None\<rparr>" 1 2 None 7 0]
  by (simp add: hex_of_nat.simps digit_char_def)

section \<open>Examples shared by the theorems on the server\<close>

definition thr_test :: thread_metadata where
  "thr_test = \<lparr>tm_id = ''thr_test'', tm_title = None, tm_created_at = 0, tm_status = None,
               tm_metadata = None\<rparr>"

definition user_message_1 :: thread_item where
  "user_message_1 =
     \<lparr>item_id = ''msg_1'', thread_id = ''thr_test'', created_at = 1,
      body = UserMessage (JStr ''Hello'')\<rparr>"

definition widget_item :: "string \<Rightarrow> nat \<Rightarrow> thread_item" where
  "widget_item i t =
     \<lparr>item_id = i, thread_id = ''thr_test'', created_at = t,
      body = Widget (JObj 0 [(''type'', JStr ''Text''), (''value'', JStr ''Response'')]) None\<rparr>"

definition hidden_item :: thread_item where
  "hidden_item =
     \<lparr>item_id = ''shcx_1'', thread_id = ''thr_test'', created_at = 2,
      body = SDKHiddenContext ''context''\<rparr>"

definition pending_message :: "string \<Rightarrow> thread_item" where
  "pending_message txt =
     \<lparr>item_id = ''msg_a'', thread_id = ''thr_test'', created_at = 1,
      body = AssistantMessage [AssistantMessageContent txt []]\<rparr>"

text \<open>A store whose one thread holds a user message and two newer items.\<close>

definition retry_store :: store where
  "retry_store =
     Map.empty(''thr_test'' \<mapsto>
       (thr_test, [user_message_1, widget_item ''widget_1'' 2, widget_item ''widget_2'' 3]))"


section \<open>Failure of the turn source\<close>

text \<open>The two classes of \<^verbatim>\<open>errors.ts\<close> that the \<^verbatim>\<open>catch\<close> block tells apart.\<close>

fun is_stream_error_class :: "exn \<Rightarrow> bool" where
  "is_stream_error_class (CustomStreamError _ _) = True"
| "is_stream_error_class (StreamError _) = True"
| "is_stream_error_class _ = False"

lemma error_event_other:
  "\<not> is_stream_error_class e
     \<Longrightarrow> error_event e = ErrorEvent stream_error (Some DEFAULT_ERROR_MESSAGE) (Some True)"
  by (cases e) simp_all

text \<open>
  Claim C7.  When the turn source raises an exception of neither stream-error class
  before it yields any event, the output of the Coordinator is exactly the
  \<^verbatim>\<open>stream_options\<close> event, the error event with code \<^verbatim>\<open>stream_error\<close>, the default
  message and \<^verbatim>\<open>allowRetry = true\<close>, and one \<^verbatim>\<open>thread.updated\<close> event with the
  snapshot of the thread.  The sequence ends there: the exception is not rethrown.
\<close>

theorem processEvents_source_throws_at_once:
  assumes "\<not> is_stream_error_class e"
  shows "fst (processEvents thread now ([], Some e) st)
           = [StreamOptionsEvent True,
              ErrorEvent stream_error (Some DEFAULT_ERROR_MESSAGE) (Some True),
              ThreadUpdatedEvent (fst (buildThreadResponseWithPending (tm_id thread) now (st, [])))]"
  using assms
  by (simp add: processEvents_def catch_block_def getStreamOptions_def error_event_other
      split: prod.splits)


theorem processEvents_source_throws_at_once_witness:
  "fst (processEvents thr_test 5 ([], Some (OtherError ''boom'')) (Map.empty(''thr_test'' \<mapsto> (thr_test, []))))
     = [StreamOptionsEvent True,
        ErrorEvent stream_error (Some ''An error occurred when generating a response.'') (Some True),
        ThreadUpdatedEvent
          \<lparr>thread_meta = thr_test,
           thread_items = \<lparr>page_data = [], page_has_more = False, page_after = None\<rparr>\<rparr>]"
  using processEvents_source_throws_at_once
    [of "OtherError ''boom''" thr_test 5 "Map.empty(''thr_test'' \<mapsto> (thr_test, []))"]
  by (simp add: buildThreadResponseWithPending_def loadFullThread_def loadThread_def
      loadThreadItems_def items_of_def toThreadResponse_def rec_values_def rec_entries_def
      DEFAULT_ERROR_MESSAGE_def DEFAULT_PAGE_SIZE_def thr_test_def)


section \<open>Cancellation\<close>

text \<open>
  A pending item that is an assistant message with non-blank accumulated text: one of its
  content parts has a character that is not white space.
\<close>

definition nonblank_assistant_message :: "thread_item \<Rightarrow> bool" where
  "nonblank_assistant_message item =
     (case body item of
        AssistantMessage content \<Rightarrow> list_ex (\<lambda>c. list_ex (\<lambda>ch. \<not> is_space ch) (content_text c)) content
      | _ \<Rightarrow> False)"

definition cancelled_item :: "string \<Rightarrow> string \<Rightarrow> nat \<Rightarrow> thread_item" where
  "cancelled_item newId threadId now =
     \<lparr>item_id = newId, thread_id = threadId, created_at = now,
      body = SDKHiddenContext
               ''The user cancelled the stream. Stop responding to the prior request.''\<rparr>"

lemma isEmpty_iff:
  "isEmpty content = (\<not> list_ex (\<lambda>c. list_ex (\<lambda>ch. \<not> is_space ch) (content_text c)) content)"
  by (induction content) (auto simp: isEmpty_def blank_def list_all_iff list_ex_iff)

lemma persist_pending_exists:
  "st threadId = Some (meta, items)
     \<Longrightarrow> persist_pending threadId ps st
           = Inr (st(threadId \<mapsto> (meta, items @ filter nonblank_assistant_message ps)))"
proof (induction ps arbitrary: st items)
  case Nil
  then show ?case by (simp add: fun_upd_idem)
next
  case (Cons p ps)
  show ?case
  proof (cases "nonblank_assistant_message p")
    case True
    then obtain content where b: "body p = AssistantMessage content" and ne: "\<not> isEmpty content"
      by (auto simp: nonblank_assistant_message_def isEmpty_iff split: item_body.splits)
    have "addThreadItem threadId p st = Inr (st(threadId \<mapsto> (meta, items @ [p])))"
      using Cons.prems by (simp add: addThreadItem_def)
    moreover have "persist_pending threadId ps (st(threadId \<mapsto> (meta, items @ [p])))
        = Inr ((st(threadId \<mapsto> (meta, items @ [p])))
                 (threadId \<mapsto> (meta, (items @ [p]) @ filter nonblank_assistant_message ps)))"
      by (rule Cons.IH) simp
    ultimately show ?thesis using b ne True by (simp add: fun_eq_iff)
  next
    case False
    then have "persist_pending threadId (p # ps) st = persist_pending threadId ps st"
      by (auto simp: nonblank_assistant_message_def isEmpty_iff split: item_body.splits)
    then show ?thesis using Cons.IH[of st items, OF Cons.prems] False by simp
  qed
qed

lemma filter_assistant_nonblank:
  "filter nonblank_assistant_message (filter (\<lambda>item. item_type item = ''assistant_message'') ps)
     = filter nonblank_assistant_message ps"
proof -
  have "\<And>p. nonblank_assistant_message p \<Longrightarrow> item_type p = ''assistant_message''"
    by (auto simp: nonblank_assistant_message_def item_type_def split: item_body.splits)
  then show ?thesis by (induction ps) auto
qed

text \<open>
  Claim C8.  On a thread of the store, the default cancellation handler appends to the
  thread's items the pending assistant messages with non-blank text, in their order, and
  then exactly one new \<^verbatim>\<open>sdk_hidden_context\<close> item with the fixed content; it persists
  no other pending item, changes no other thread and throws nothing.
\<close>

theorem handleStreamCancelled_persists:
  assumes "st (tm_id thread) = Some (meta, items)"
  shows "handleStreamCancelled thread pendingItems now (st, idCounter)
           = Inr (st(tm_id thread \<mapsto>
                      (meta, items @ filter nonblank_assistant_message pendingItems
                               @ [cancelled_item (''shcx_'' @ hex_of_nat (idCounter + 1))
                                    (tm_id thread) now])),
                  idCounter + 1)"
proof -
  have "persist_pending (tm_id thread)
          (filter (\<lambda>item. item_type item = ''assistant_message'') pendingItems) st
        = Inr (st(tm_id thread \<mapsto>
                 (meta, items @ filter nonblank_assistant_message pendingItems)))"
    using persist_pending_exists[of st "tm_id thread" meta items, OF assms]
      filter_assistant_nonblank by simp
  then show ?thesis
    unfolding handleStreamCancelled_def Let_def
    by (simp add: defaultGenerateId_def addThreadItem_def cancelled_item_def fun_eq_iff)
qed


theorem handleStreamCancelled_persists_witness:
  "handleStreamCancelled thr_test [pending_message ''Hello, ''] 9
       (Map.empty(''thr_test'' \<mapsto> (thr_test, [])), 0)
     = Inr (Map.empty(''thr_test'' \<mapsto>
              (thr_test, [pending_message ''Hello, '', cancelled_item ''shcx_1'' ''thr_test'' 9])), 1)
   \<and> handleStreamCancelled thr_test [pending_message ''  ''] 9
       (Map.empty(''thr_test'' \<mapsto> (thr_test, [])), 0)
     = Inr (Map.empty(''thr_test'' \<mapsto> (thr_test, [cancelled_item ''shcx_1'' ''thr_test'' 9])), 1)"
  using handleStreamCancelled_persists
      [of "Map.empty(''thr_test'' \<mapsto> (thr_test, []))" thr_test thr_test "[]"
          "[pending_message ''Hello, '']" 9 0]
    handleStreamCancelled_persists
      [of "Map.empty(''thr_test'' \<mapsto> (thr_test, []))" thr_test thr_test "[]"
          "[pending_message ''  '']" 9 0]
  by (simp add: thr_test_def pending_message_def nonblank_assistant_message_def is_space_def
      hex_of_nat.simps digit_char_def fun_eq_iff)


section \<open>Hidden-context items\<close>

definition no_hidden_items :: "thread \<Rightarrow> bool" where
  "no_hidden_items t = list_all (\<lambda>item. \<not> isHidden item) (page_data (thread_items t))"

text \<open>
  An event of the output of the Coordinator is an event of the turn source that is not
  swallowed, an error event, or a snapshot without hidden items.
\<close>

definition output_event_ok :: "event list \<Rightarrow> event \<Rightarrow> bool" where
  "output_event_ok source ev =
     ((ev \<in> set source \<and> \<not> shouldSwallowEvent ev)
      \<or> (case ev of
            ErrorEvent c m r \<Rightarrow> True
          | ThreadUpdatedEvent t \<Rightarrow> no_hidden_items t
          | StreamOptionsEvent b \<Rightarrow> True
          | _ \<Rightarrow> False))"

lemma snapshot_no_hidden:
  "no_hidden_items (fst (buildThreadResponseWithPending threadId now s))"
  by (auto simp: buildThreadResponseWithPending_def toThreadResponse_def no_hidden_items_def
      Let_def list_all_iff split: prod.splits)

lemma output_event_ok_mono:
  "output_event_ok evs ev \<Longrightarrow> output_event_ok (e # evs) ev"
  by (auto simp: output_event_ok_def)

lemma handle_event_ok:
  assumes "handle_event threadId now ev s = Inr (out, s1)"
  shows "list_all (output_event_ok [ev]) out"
proof -
  obtain s2 emit where a: "apply_event threadId ev s = Inr (s2, emit)"
    using assms by (auto simp: handle_event_def split: sum.splits)
  show ?thesis
  proof (cases emit)
    case True
    then have "out = (if shouldSwallowEvent ev then [] else [ev])
                 @ [ThreadUpdatedEvent (fst (buildThreadResponseWithPending threadId now s2))]"
      using assms a by (auto simp: handle_event_def split: prod.splits)
    then show ?thesis using snapshot_no_hidden by (simp add: output_event_ok_def)
  next
    case False
    then have "out = (if shouldSwallowEvent ev then [] else [ev])"
      using assms a by (auto simp: handle_event_def)
    then show ?thesis by (simp add: output_event_ok_def)
  qed
qed

lemma catch_block_ok:
  "list_all (output_event_ok evs) (fst (catch_block threadId now e s))"
proof -
  have "\<exists>c m r. error_event e = ErrorEvent c m r" by (cases e) simp_all
  then show ?thesis
    using snapshot_no_hidden[of threadId now s]
    by (auto simp: catch_block_def output_event_ok_def split: prod.splits)
qed

lemma process_loop_ok:
  "list_all (output_event_ok evs) (fst (process_loop threadId now evs ending s))"
proof (induction evs arbitrary: s)
  case Nil
  show ?case
  proof (cases ending)
    case None
    then show ?thesis
      using snapshot_no_hidden[of threadId now s]
      by (auto simp: output_event_ok_def split: prod.splits)
  next
    case (Some e)
    then show ?thesis using catch_block_ok by simp
  qed
next
  case (Cons ev evs)
  show ?case
  proof (cases "handle_event threadId now ev s")
    case (Inl e)
    then show ?thesis using catch_block_ok by simp
  next
    case (Inr r)
    obtain out s1 where r: "r = (out, s1)" by (cases r)
    have "list_all (output_event_ok [ev]) out" using handle_event_ok Inr r by simp
    then have 1: "list_all (output_event_ok (ev # evs)) out"
      by (auto simp: list_all_iff output_event_ok_def)
    have "list_all (output_event_ok evs) (fst (process_loop threadId now evs ending s1))"
      using Cons.IH .
    then have 2: "list_all (output_event_ok (ev # evs)) (fst (process_loop threadId now evs ending s1))"
      using output_event_ok_mono by (auto simp: list_all_iff)
    show ?thesis using Inr r 1 2 by (auto split: prod.splits)
  qed
qed

lemma processEvents_ok:
  "list_all (output_event_ok (fst stream)) (fst (processEvents thread now stream st))"
  using process_loop_ok[of "fst stream" "tm_id thread" now "snd stream" "(st, [])"]
  by (auto simp: processEvents_def output_event_ok_def split: prod.splits)

text \<open>
  \<open>survives item ev\<close>: the event \<open>ev\<close> does not remove the item from the store and does
  not replace it, that is, it is no \<^verbatim>\<open>thread.item.removed\<close> and no
  \<^verbatim>\<open>thread.item.replaced\<close> event with the identifier of the item.
\<close>

definition survives :: "thread_item \<Rightarrow> event \<Rightarrow> bool" where
  "survives item ev =
     (case ev of
        ThreadItemRemovedEvent itemId \<Rightarrow> itemId \<noteq> item_id item
      | ThreadItemReplacedEvent i \<Rightarrow> item_id i \<noteq> item_id item
      | _ \<Rightarrow> True)"

lemma snapshot_store:
  "st tid = Some (m, its) \<Longrightarrow> snd (buildThreadResponseWithPending tid now (st, p)) = st"
  by (simp add: buildThreadResponseWithPending_def loadFullThread_def loadThread_def Let_def)

lemma findIndex_Some: "findIndex q xs = Some i \<Longrightarrow> i < length xs \<and> q (xs ! i)"
  by (induction xs arbitrary: i) (auto split: if_splits option.splits)

lemma set_update_other: "x \<in> set xs \<Longrightarrow> x \<noteq> xs ! i \<Longrightarrow> x \<in> set (xs[i := y])"
  by (metis in_set_conv_nth length_list_update nth_list_update_neq)

lemma apply_event_stored:
  assumes "st tid = Some (m, its)"
  shows "\<exists>st' p' flag m' its'. apply_event tid ev (st, p) = Inr ((st', p'), flag)
           \<and> st' tid = Some (m', its')
           \<and> (\<forall>x\<in>set its. survives x ev \<longrightarrow> x \<in> set its')
           \<and> (\<forall>i. ev = ThreadItemDoneEvent i \<longrightarrow> i \<in> set its')"
proof (cases ev)
  case (ThreadItemReplacedEvent i)
  show ?thesis
  proof (cases "findIndex (\<lambda>j. item_id j = item_id i) its")
    case None
    then show ?thesis using assms ThreadItemReplacedEvent by (auto simp: saveItem_def)
  next
    case (Some idx)
    then have "item_id (its ! idx) = item_id i" using findIndex_Some by fastforce
    then have "\<forall>x\<in>set its. item_id i \<noteq> item_id x \<longrightarrow> x \<in> set (its[idx := i])"
      using set_update_other by metis
    then show ?thesis using assms ThreadItemReplacedEvent Some
      by (auto simp: saveItem_def survives_def)
  qed
next
  case (ThreadItemUpdatedEvent itemId update)
  then show ?thesis using assms
    by (auto simp: survives_def split: option.splits item_body.splits)
qed (use assms in \<open>auto simp: addThreadItem_def deleteThreadItem_def survives_def\<close>)

lemma handle_event_stored:
  assumes "st tid = Some (m, its)"
  shows "\<exists>out st' p' m' its'. handle_event tid now ev (st, p) = Inr (out, (st', p'))
           \<and> st' tid = Some (m', its')
           \<and> (\<forall>x\<in>set its. survives x ev \<longrightarrow> x \<in> set its')
           \<and> (\<forall>i. ev = ThreadItemDoneEvent i \<longrightarrow> i \<in> set its')"
proof -
  obtain st' p' flag m' its' where a: "apply_event tid ev (st, p) = Inr ((st', p'), flag)"
      "st' tid = Some (m', its')" "\<forall>x\<in>set its. survives x ev \<longrightarrow> x \<in> set its'"
      "\<forall>i. ev = ThreadItemDoneEvent i \<longrightarrow> i \<in> set its'"
    using apply_event_stored[where st = st and tid = tid and ev = ev and p = p, OF assms]
    by (elim exE conjE) (rule that, assumption+)
  obtain ft st2 where b: "buildThreadResponseWithPending tid now (st', p') = (ft, st2)"
    by (cases "buildThreadResponseWithPending tid now (st', p')")
  have "st2 = st'"
    using snapshot_store[where st = st' and tid = tid, OF a(2), of now p'] b by simp
  then have "handle_event tid now ev (st, p)
      = Inr ((if shouldSwallowEvent ev then [] else [ev])
             @ (if flag then [ThreadUpdatedEvent ft] else []), (st', p'))"
    using a(1) b by (simp add: handle_event_def Let_def)
  then show ?thesis using a(2,3,4) by (intro exI conjI) assumption+
qed

lemma process_loop_end_store:
  assumes "st tid = Some (m, its)"
  shows "fst (snd (process_loop tid now [] ending (st, p))) = st"
  using snapshot_store[where st = st and tid = tid, OF assms, of now p]
  by (cases ending) (auto simp: catch_block_def split: prod.splits)

lemma process_loop_keeps:
  assumes "st tid = Some (m, its)" and "x \<in> set its" and "\<forall>ev\<in>set evs. survives x ev"
  shows "x \<in> set (items_of (fst (snd (process_loop tid now evs ending (st, p)))) tid)"
  using assms
proof (induction evs arbitrary: st p m its)
  case Nil
  then show ?case
    using process_loop_end_store[where st = st and tid = tid, OF Nil(1)]
    by (simp add: items_of_def)
next
  case (Cons ev evs)
  obtain out st' p' m' its' where h: "handle_event tid now ev (st, p) = Inr (out, (st', p'))"
      "st' tid = Some (m', its')" "\<forall>x\<in>set its. survives x ev \<longrightarrow> x \<in> set its'"
    using handle_event_stored[where st = st and tid = tid and ev = ev and p = p and now = now,
            OF Cons.prems(1)]
    by (elim exE conjE) (rule that, assumption+)
  have "x \<in> set its'" using h(3) Cons.prems(2,3) by simp
  then have "x \<in> set (items_of (fst (snd (process_loop tid now evs ending (st', p')))) tid)"
    using Cons.IH[where st = st' and p = p', OF h(2)] Cons.prems(3) by simp
  then show ?case using h(1) by (auto split: prod.splits)
qed

lemma process_loop_persists:
  assumes "st tid = Some (m, its)" and "\<forall>ev\<in>set post. survives item ev"
  shows "item \<in> set (items_of (fst (snd (process_loop tid now
            (pre @ ThreadItemDoneEvent item # post) ending (st, p)))) tid)"
  using assms(1)
proof (induction pre arbitrary: st p m its)
  case Nil
  obtain out st' p' m' its' where h0:
      "handle_event tid now (ThreadItemDoneEvent item) (st, p) = Inr (out, (st', p'))"
      "st' tid = Some (m', its')"
      "\<forall>i. ThreadItemDoneEvent item = ThreadItemDoneEvent i \<longrightarrow> i \<in> set its'"
    using handle_event_stored[where st = st and tid = tid and ev = "ThreadItemDoneEvent item"
            and p = p and now = now, OF Nil]
    by (elim exE conjE) (rule that, assumption+)
  have h: "handle_event tid now (ThreadItemDoneEvent item) (st, p) = Inr (out, (st', p'))"
      "st' tid = Some (m', its')" "item \<in> set its'"
    using h0 by simp_all
  have "item \<in> set (items_of (fst (snd (process_loop tid now post ending (st', p')))) tid)"
    using process_loop_keeps[where st = st' and tid = tid, OF h(2,3) assms(2)] .
  then show ?case using h(1) by (auto split: prod.splits)
next
  case (Cons ev pre)
  obtain out st' p' m' its' where h: "handle_event tid now ev (st, p) = Inr (out, (st', p'))"
      "st' tid = Some (m', its')"
    using handle_event_stored[where st = st and tid = tid and ev = ev and p = p and now = now,
            OF Cons.prems]
    by (elim exE conjE) (rule that, assumption+)
  show ?case using Cons.IH[where st = st' and p = p', OF h(2)] h(1)
    by (auto split: prod.splits)
qed

lemma processEvents_persists:
  assumes "st0 (tm_id thread) = Some (m, its)" and "\<forall>ev\<in>set post. survives item ev"
  shows "item \<in> set (items_of (fst (snd (processEvents thread now
            (pre @ ThreadItemDoneEvent item # post, ending) st0))) (tm_id thread))"
  using process_loop_persists[where st = st0 and tid = "tm_id thread", OF assms,
          of now pre ending "[]"]
  by (auto simp: processEvents_def split: prod.splits)


definition snapshot_with_hidden :: thread where
  "snapshot_with_hidden =
     \<lparr>thread_meta = thr_test,
      thread_items = \<lparr>page_data = [hidden_item], page_has_more = False, page_after = None\<rparr>\<rparr>"

text \<open>
  Claim C9 reads: every \<^verbatim>\<open>thread.item.done\<close> event with an item of a hidden kind is
  persisted and never emitted, and no \<^verbatim>\<open>thread.updated\<close> snapshot and no \<^verbatim>\<open>items.list\<close>
  response contains a hidden item.  A \<^verbatim>\<open>thread.updated\<close> event that the turn source
  itself yields is forwarded as it is, hidden items included: only \<^verbatim>\<open>thread.item.done\<close>
  events are tested by \<^verbatim>\<open>shouldSwallowEvent\<close>.
\<close>

theorem forwarded_snapshot_has_hidden_item:
  "ThreadUpdatedEvent snapshot_with_hidden
     \<in> set (fst (processEvents thr_test 3 ([ThreadUpdatedEvent snapshot_with_hidden], None)
                   (Map.empty(''thr_test'' \<mapsto> (thr_test, [])))))
   \<and> \<not> no_hidden_items snapshot_with_hidden"
  by (auto simp: processEvents_def handle_event_def shouldSwallowEvent_def no_hidden_items_def
      snapshot_with_hidden_def isHidden_def item_type_def hidden_item_def split: prod.splits)

text \<open>
  Claim C9, amended.  On a thread of the store, the item of every \<^verbatim>\<open>thread.item.done\<close>
  event of a hidden kind that the turn source yields is persisted: it is among the items
  of the thread when the Coordinator has finished, unless a later event of the turn
  removes or replaces it.  No such event is in the output of the Coordinator.  Every
  \<^verbatim>\<open>thread.updated\<close> event of the output is a snapshot without hidden items, unless it
  is an event of the turn source itself, which is forwarded as it is.  The page of an
  \<^verbatim>\<open>items.list\<close> response has no hidden item.
\<close>

theorem hidden_context_suppressed:
  "(isHidden item \<and> st0 (tm_id thread) = Some (meta, items)
      \<and> list_all (survives item) post \<longrightarrow>
      item \<in> set (items_of (fst (snd (processEvents thread now
                  (pre @ ThreadItemDoneEvent item # post, ending) st0))) (tm_id thread)))
   \<and> (isHidden item \<longrightarrow>
        ThreadItemDoneEvent item \<notin> set (fst (processEvents thread now stream st0)))
   \<and> (ThreadUpdatedEvent t \<in> set (fst (processEvents thread now stream st0)) \<longrightarrow>
        ThreadUpdatedEvent t \<in> set (fst stream) \<or> no_hidden_items t)
   \<and> list_all (\<lambda>i. \<not> isHidden i) (page_data (items_list threadId after limit ord st))"
proof (intro conjI impI)
  assume "isHidden item \<and> st0 (tm_id thread) = Some (meta, items) \<and> list_all (survives item) post"
  then show "item \<in> set (items_of (fst (snd (processEvents thread now
                  (pre @ ThreadItemDoneEvent item # post, ending) st0))) (tm_id thread))"
    using processEvents_persists[where ?st0.0 = st0 and thread = thread and item = item
            and post = post and m = meta and its = items]
    by (simp add: list_all_iff)
next
  assume h: "isHidden item"
  show "ThreadItemDoneEvent item \<notin> set (fst (processEvents thread now stream st0))"
  proof
    assume "ThreadItemDoneEvent item \<in> set (fst (processEvents thread now stream st0))"
    then have "output_event_ok (fst stream) (ThreadItemDoneEvent item)"
      using processEvents_ok[of stream thread now st0] by (simp add: list_all_iff)
    then show False using h by (simp add: output_event_ok_def shouldSwallowEvent_def isHidden_def)
  qed
next
  assume "ThreadUpdatedEvent t \<in> set (fst (processEvents thread now stream st0))"
  then have "output_event_ok (fst stream) (ThreadUpdatedEvent t)"
    using processEvents_ok[of stream thread now st0] by (simp add: list_all_iff)
  then show "ThreadUpdatedEvent t \<in> set (fst stream) \<or> no_hidden_items t"
    by (auto simp: output_event_ok_def)
next
  show "list_all (\<lambda>i. \<not> isHidden i) (page_data (items_list threadId after limit ord st))"
    by (simp add: items_list_def Let_def list_all_iff isHidden_def)
qed

text \<open>The snapshot that the Coordinator builds after a hidden item alone is persisted.\<close>

definition snapshot_after_hidden :: thread where
  "snapshot_after_hidden =
     \<lparr>thread_meta = thr_test,
      thread_items =
        \<lparr>page_data = [], page_has_more = False, page_after = Some ''shcx_1''\<rparr>\<rparr>"

lemma hidden_run:
  "processEvents thr_test 3 ([ThreadItemDoneEvent hidden_item], None)
     (Map.empty(''thr_test'' \<mapsto> (thr_test, [])))
   = ([StreamOptionsEvent True, ThreadUpdatedEvent snapshot_after_hidden,
       ThreadUpdatedEvent snapshot_after_hidden],
      (Map.empty(''thr_test'' \<mapsto> (thr_test, [hidden_item])), []))"
  by (simp add: processEvents_def handle_event_def shouldSwallowEvent_def addThreadItem_def
      buildThreadResponseWithPending_def loadFullThread_def loadThread_def loadThreadItems_def
      items_of_def toThreadResponse_def isHidden_def item_type_def hidden_item_def
      DEFAULT_PAGE_SIZE_def getStreamOptions_def rec_delete_def rec_values_def rec_entries_def
      snapshot_after_hidden_def thr_test_def Let_def)

theorem hidden_context_suppressed_witness:
  "hidden_item \<in> set (items_of (fst (snd (processEvents thr_test 3
        ([ThreadItemDoneEvent hidden_item], None)
        (Map.empty(''thr_test'' \<mapsto> (thr_test, [])))))) ''thr_test'')
   \<and> ThreadItemDoneEvent hidden_item
       \<notin> set (fst (processEvents thr_test 3 ([ThreadItemDoneEvent hidden_item], None)
                      (Map.empty(''thr_test'' \<mapsto> (thr_test, [])))))
   \<and> ThreadUpdatedEvent snapshot_after_hidden
       \<in> set (fst (processEvents thr_test 3 ([ThreadItemDoneEvent hidden_item], None)
                      (Map.empty(''thr_test'' \<mapsto> (thr_test, [])))))
   \<and> no_hidden_items snapshot_after_hidden
   \<and> page_data (items_list ''thr_test'' None None None
                  (Map.empty(''thr_test'' \<mapsto> (thr_test, [user_message_1, hidden_item]))))
       = [user_message_1]"
proof -
  have h: "isHidden hidden_item"
    by (simp add: isHidden_def item_type_def hidden_item_def)
  have l: "page_data (items_list ''thr_test'' None None None
                  (Map.empty(''thr_test'' \<mapsto> (thr_test, [user_message_1, hidden_item]))))
       = [user_message_1]"
    by (simp add: items_list_def loadThreadItems_def items_of_def DEFAULT_PAGE_SIZE_def
        item_type_def hidden_item_def user_message_1_def)
  have t: "tm_id thr_test = ''thr_test''" by (simp add: thr_test_def)
  have u: "ThreadUpdatedEvent snapshot_after_hidden
       \<in> set (fst (processEvents thr_test 3 ([ThreadItemDoneEvent hidden_item], None)
                      (Map.empty(''thr_test'' \<mapsto> (thr_test, [])))))"
    by (simp add: hidden_run)
  show ?thesis
    using hidden_context_suppressed
      [where item = hidden_item and ?st0.0 = "Map.empty(''thr_test'' \<mapsto> (thr_test, []))"
         and meta = thr_test and items = "[]" and now = 3 and thread = thr_test
         and pre = "[]" and post = "[]" and ending = None and t = snapshot_after_hidden
         and stream = "([ThreadItemDoneEvent hidden_item], None)"] h l t u
    by simp
qed

section \<open>Retry after an item\<close>


lemma findIndex_distinct:
  "distinct (map f xs) \<Longrightarrow> j < length xs \<Longrightarrow> findIndex (\<lambda>i. f i = f (xs ! j)) xs = Some j"
proof (induction xs arbitrary: j)
  case Nil
  then show ?case by simp
next
  case (Cons x xs)
  show ?case
  proof (cases j)
    case 0
    then show ?thesis by simp
  next
    case (Suc j')
    then have j': "j' < length xs" using Cons.prems by simp
    then have "f (xs ! j') \<in> f ` set xs" by simp
    then have "f x \<noteq> f (xs ! j')" using Cons.prems(1) by auto
    moreover have "findIndex (\<lambda>i. f i = f (xs ! j')) xs = Some j'"
      using Cons.IH[OF _ j'] Cons.prems(1) by simp
    ultimately show ?thesis using Suc by simp
  qed
qed

lemma for_of_continue:
  "(\<And>acc i. i \<in> set xs \<Longrightarrow> f acc i = Continue (acc @ [i]))
     \<Longrightarrow> for_of f acc xs = Continue (acc @ xs)"
  by (induction xs arbitrary: acc) auto

lemma loadThreadItems_asc_at:
  assumes d: "distinct (map item_id xs)" and ne: "[] \<notin> item_id ` set xs"
      and xs: "items_of st tid = xs" and k: "k \<le> length xs"
      and a: "after = (if k = 0 then None else Some (item_id (xs ! (k - 1))))"
  shows "loadThreadItems tid after n asc st =
           \<lparr>page_data = take n (drop k xs), page_has_more = (k + n < length xs),
            page_after = (if take n (drop k xs) = [] then None
                          else Some (item_id (last (take n (drop k xs)))))\<rparr>"
proof (cases "k = 0")
  case True
  then show ?thesis using a xs by (simp add: loadThreadItems_def Let_def)
next
  case False
  then have j: "k - 1 < length xs" using k by simp
  have "item_id (xs ! (k - 1)) \<noteq> []" using ne j by (metis image_eqI nth_mem)
  moreover have "findIndex (\<lambda>i. item_id i = item_id (xs ! (k - 1))) xs = Some (k - 1)"
    using findIndex_distinct[OF d j] .
  ultimately show ?thesis using a xs False by (simp add: loadThreadItems_def Let_def)
qed

lemma paginate_all:
  assumes d: "distinct (map item_id xs)" and ne: "[] \<notin> item_id ` set xs"
      and xs: "items_of st tid = xs"
      and f: "\<And>acc i. i \<in> set xs \<Longrightarrow> f acc i = Continue (acc @ [i])"
  shows "k \<le> length xs \<Longrightarrow> after = (if k = 0 then None else Some (item_id (xs ! (k - 1))))
           \<Longrightarrow> paginateThreadItemsReverse f tid st after acc = Some (Continue (acc @ drop k xs))"
proof (induction "length xs - k" arbitrary: k after acc rule: less_induct)
  case less
  let ?slice = "take DEFAULT_PAGE_SIZE (drop k xs)"
  have page: "loadThreadItems tid after DEFAULT_PAGE_SIZE asc st =
           \<lparr>page_data = ?slice, page_has_more = (k + DEFAULT_PAGE_SIZE < length xs),
            page_after = (if ?slice = [] then None else Some (item_id (last ?slice)))\<rparr>"
    using loadThreadItems_asc_at[OF d ne xs less.prems(1) less.prems(2)] .
  have "set ?slice \<subseteq> set xs" by (meson set_drop_subset set_take_subset subset_trans)
  then have loop: "for_of f acc ?slice = Continue (acc @ ?slice)"
    using for_of_continue[of ?slice f acc] f by blast
  show ?case
  proof (cases "k + DEFAULT_PAGE_SIZE < length xs")
    case False
    then have "?slice = drop k xs" by simp
    then show ?thesis
      using page loop False by (subst paginateThreadItemsReverse.simps) simp
  next
    case True
    have len: "length ?slice = DEFAULT_PAGE_SIZE" using True by simp
    have pos: "0 < DEFAULT_PAGE_SIZE" by (simp add: DEFAULT_PAGE_SIZE_def)
    then have ne_slice: "?slice \<noteq> []" using len by auto
    have "last ?slice = ?slice ! (DEFAULT_PAGE_SIZE - 1)"
      using last_conv_nth[OF ne_slice] len by simp
    also have "\<dots> = xs ! (k + (DEFAULT_PAGE_SIZE - 1))"
      using True pos by simp
    finally have last: "last ?slice = xs ! (k + DEFAULT_PAGE_SIZE - 1)" using pos by simp
    let ?k = "k + DEFAULT_PAGE_SIZE"
    have "paginateThreadItemsReverse f tid st (Some (item_id (last ?slice))) (acc @ ?slice)
            = Some (Continue ((acc @ ?slice) @ drop ?k xs))"
    proof (rule less.hyps)
      show "length xs - ?k < length xs - k" using True pos by simp
      show "?k \<le> length xs" using True by simp
      show "Some (item_id (last ?slice)) = (if ?k = 0 then None else Some (item_id (xs ! (?k - 1))))"
        using pos last by simp
    qed
    moreover have "?slice @ drop ?k xs = drop k xs"
      by (metis add.commute append_take_drop_id drop_drop)
    ultimately show ?thesis
      using page loop True ne_slice by (subst paginateThreadItemsReverse.simps) simp
  qed
qed


lemma retry_body_other:
  "item_id i \<noteq> target \<Longrightarrow> retry_body target acc i = Continue (acc @ [i])"
  by (simp add: retry_body_def)

lemma items_of_loadThread:
  "items_of (snd (loadThread threadId now st)) t = items_of st t"
  by (auto simp: loadThread_def items_of_def Let_def split: option.splits)

text \<open>
  The cursor of the second page is the identifier of the last item of the first.  When
  that identifier is the empty string the store takes the cursor for absent and returns
  the first page again.
\<close>

lemma paginate_empty_cursor:
  fixes f :: "thread_item list \<Rightarrow> thread_item \<Rightarrow> (thread_item list, 'b) loop_step"
  assumes items: "items_of st tid = xs"
      and len: "DEFAULT_PAGE_SIZE < length xs"
      and cursor: "item_id (xs ! (DEFAULT_PAGE_SIZE - 1)) = []"
      and cont: "\<And>acc i. i \<in> set xs \<Longrightarrow> f acc i = Continue (acc @ [i])"
  shows "paginateThreadItemsReverse f tid st None acc = None"
proof (rule ccontr)
  assume "paginateThreadItemsReverse f tid st None acc \<noteq> None"
  then obtain y where y: "paginateThreadItemsReverse f tid st None acc = Some y" by auto
  have page: "loadThreadItems tid after DEFAULT_PAGE_SIZE asc st
                = \<lparr>page_data = take DEFAULT_PAGE_SIZE xs, page_has_more = True,
                   page_after = Some []\<rparr>"
    if "after = None \<or> after = Some []" for after
  proof -
    have ne: "take DEFAULT_PAGE_SIZE xs \<noteq> []"
      using len by (auto simp: DEFAULT_PAGE_SIZE_def)
    have "last (take DEFAULT_PAGE_SIZE xs) = xs ! (DEFAULT_PAGE_SIZE - 1)"
      using len ne by (simp add: last_conv_nth min_def)
    then show ?thesis
      using that items len cursor ne by (auto simp: loadThreadItems_def Let_def)
  qed
  have run: "for_of f acc' (take DEFAULT_PAGE_SIZE xs) = Continue (acc' @ take DEFAULT_PAGE_SIZE xs)"
    for acc'
    by (rule for_of_continue) (auto dest: in_set_takeD intro: cont)
  define P where "P = (\<lambda>f' tid' st' (after' :: string option) (acc' :: thread_item list)
                         (y' :: (thread_item list, 'b) loop_step).
           \<not> (f' = f \<and> tid' = tid \<and> st' = st \<and> (after' = None \<or> after' = Some [])))"
  have "P f tid st None acc y"
  proof (rule paginateThreadItemsReverse.raw_induct[where P = P, OF _ y], goal_cases)
    case (1 rec f' tid' st' after' acc' y')
    show ?case
      unfolding P_def
    proof
      assume c: "f' = f \<and> tid' = tid \<and> st' = st \<and> (after' = None \<or> after' = Some [])"
      then have "rec f tid st (Some []) (acc' @ take DEFAULT_PAGE_SIZE xs) = Some y'"
        using 1(2) page[of after'] run[of acc'] by (simp add: Let_def)
      then have "P f tid st (Some []) (acc' @ take DEFAULT_PAGE_SIZE xs) y'"
        by (rule 1(1))
      then show False by (simp add: P_def)
    qed
  qed
  then show False by (simp add: P_def)
qed

definition cursor_store :: store where
  "cursor_store =
     Map.empty(''thr_test'' \<mapsto>
       (thr_test,
        map (\<lambda>n. widget_item (''w'' @ dec_of_nat n) n) [0..<19]
        @ [widget_item [] 19, widget_item ''w20'' 20]))"

text \<open>
  Claim C10 reads: a \<^verbatim>\<open>threads.retry_after_item\<close> request whose \<^verbatim>\<open>item_id\<close> matches
  no item of the thread completes without an error, yields no event and deletes nothing.
  On a thread of twenty-one items whose twentieth has the empty string as identifier, the
  request loads the first page for ever and does not complete.
\<close>

theorem retry_unknown_item_never_completes:
  "threads_retry_after_item (\<lambda>t i. ([], None)) ''thr_test'' ''msg_9'' 4 cursor_store = None"
proof -
  let ?xs = "map (\<lambda>n. widget_item (''w'' @ dec_of_nat n) n) [0..<19]
             @ [widget_item [] 19, widget_item ''w20'' 20]"
  have l: "loadThread ''thr_test'' 4 cursor_store = (thr_test, cursor_store)"
    by (simp add: loadThread_def cursor_store_def)
  have i: "items_of cursor_store ''thr_test'' = ?xs"
    by (simp add: items_of_def cursor_store_def)
  have "paginateThreadItemsReverse (retry_body ''msg_9'') ''thr_test'' cursor_store None [] = None"
  proof (rule paginate_empty_cursor[OF i])
    show "DEFAULT_PAGE_SIZE < length ?xs" by (simp add: DEFAULT_PAGE_SIZE_def)
    show "item_id (?xs ! (DEFAULT_PAGE_SIZE - 1)) = []"
      by (simp add: DEFAULT_PAGE_SIZE_def nth_append widget_item_def)
    show "retry_body ''msg_9'' acc i = Continue (acc @ [i])" if "i \<in> set ?xs" for acc i
      using that by (intro retry_body_other) (auto simp: widget_item_def)
  qed
  then show ?thesis using l by (simp add: threads_retry_after_item_def)
qed

text \<open>
  Claim C10, amended.  On a store whose items of the thread have distinct, non-empty
  identifiers, a \<^verbatim>\<open>threads.retry_after_item\<close> request whose \<^verbatim>\<open>item_id\<close> is the
  identifier of none of them completes, throws nothing, yields no event, does not call
  the turn source and deletes nothing: the items of the thread are what they were.
\<close>

theorem retry_unknown_item_is_silent:
  assumes "distinct (map item_id (items_of st threadId))"
      and "[] \<notin> item_id ` set (items_of st threadId)"
      and "itemId \<notin> item_id ` set (items_of st threadId)"
  shows "threads_retry_after_item respond threadId itemId now st
           = Some \<lparr>ro_events = [], ro_thrown = None, ro_respond_call = None,
                   ro_store = snd (loadThread threadId now st)\<rparr>
         \<and> items_of (snd (loadThread threadId now st)) threadId = items_of st threadId"
proof -
  obtain threadMetadata st1 where l: "loadThread threadId now st = (threadMetadata, st1)"
    by (cases "loadThread threadId now st")
  have xs: "items_of st1 threadId = items_of st threadId"
    using items_of_loadThread[of threadId now st threadId] l by simp
  have "paginateThreadItemsReverse (retry_body itemId) threadId st1 None []
          = Some (Continue ([] @ drop 0 (items_of st threadId)))"
  proof (rule paginate_all[OF assms(1) assms(2) xs])
    show "retry_body itemId acc i = Continue (acc @ [i])" if "i \<in> set (items_of st threadId)" for acc i
      using that assms(3) by (intro retry_body_other) auto
  qed simp_all
  then show ?thesis
    using l xs by (simp add: threads_retry_after_item_def)
qed


theorem retry_unknown_item_is_silent_witness:
  "threads_retry_after_item (\<lambda>t i. ([], None)) ''thr_test'' ''msg_9'' 4 retry_store
     = Some \<lparr>ro_events = [], ro_thrown = None, ro_respond_call = None, ro_store = retry_store\<rparr>
   \<and> items_of retry_store ''thr_test''
     = [user_message_1, widget_item ''widget_1'' 2, widget_item ''widget_2'' 3]"
proof -
  have i: "items_of retry_store ''thr_test''
             = [user_message_1, widget_item ''widget_1'' 2, widget_item ''widget_2'' 3]"
    by (simp add: items_of_def retry_store_def)
  have l: "loadThread ''thr_test'' 4 retry_store = (thr_test, retry_store)"
    by (simp add: loadThread_def retry_store_def)
  show ?thesis
    using retry_unknown_item_is_silent
      [of retry_store "''thr_test''" "''msg_9''" "\<lambda>t i. ([], None)" 4] i l
    by (simp add: user_message_1_def widget_item_def)
qed


lemma retry_scan_example:
  "paginateThreadItemsReverse (retry_body ''msg_1'') ''thr_test'' retry_store None []
     = Some (Break (Inr ([], user_message_1)))"
  by (simp add: paginateThreadItemsReverse.simps loadThreadItems_def retry_store_def
      items_of_def retry_body_def user_message_1_def item_type_def DEFAULT_PAGE_SIZE_def)

text \<open>
  Claim C1 says that a retry naming a user message with two newer items after it deletes
  those two items before the turn source is called again.  On the store above, whose
  thread holds the user message \<^verbatim>\<open>msg_1\<close> and then the two newer items, the request
  naming \<^verbatim>\<open>msg_1\<close> calls the turn source with that message on the store as it was: the
  pages are read oldest first, the target is the first item met, and nothing is deleted.
\<close>

theorem retry_deletes_nothing_newer:
  "map_option ro_respond_call
     (threads_retry_after_item respond ''thr_test'' ''msg_1'' now retry_store)
     = Some (Some (user_message_1, retry_store))
   \<and> items_of retry_store ''thr_test''
     = [user_message_1, widget_item ''widget_1'' 2, widget_item ''widget_2'' 3]"
proof -
  have "loadThread ''thr_test'' now retry_store = (thr_test, retry_store)"
    by (simp add: loadThread_def retry_store_def)
  then show ?thesis
    using retry_scan_example
    by (simp add: threads_retry_after_item_def items_of_def split: prod.splits)
       (simp add: retry_store_def)
qed

section \<open>Snapshots that differ in one text node\<close>

text \<open>
  The id-bearing text nodes of a snapshot in document order, each with the key under
  which \<^verbatim>\<open>findAllStreamingTextComponents\<close> records it: the nodes of type \<^verbatim>\<open>Text\<close>
  with a string \<^verbatim>\<open>value\<close> and a truthy \<^verbatim>\<open>id\<close> that are reached from the root
  through \<^verbatim>\<open>children\<close> arrays.
\<close>

function text_nodes :: "jsval \<Rightarrow> (string \<times> jsval) list" where
  "text_nodes node =
     (if isStreamingText node \<and> truthy (js_prop node ''id'')
      then [(js_String (js_prop node ''id''), node)] else [])
     @ concat (map text_nodes (elems (js_prop node ''children'')))"
  by pat_completeness auto
termination
proof (relation "measure size", goal_cases)
  case 1
  then show ?case by simp
next
  case (2 node x)
  then show ?case
    using size_elems[of x "js_prop node ''children''"] size_js_prop_le[of node "''children''"]
    by simp
qed

declare text_nodes.simps [simp del]

text \<open>
  The snapshots on which the traversal completes: no node is \<^verbatim>\<open>null\<close> or
  \<^verbatim>\<open>undefined\<close>, and every \<^verbatim>\<open>children\<close> field is absent, \<^verbatim>\<open>null\<close>, a string or an
  array of such nodes.
\<close>

function iterable :: "jsval \<Rightarrow> bool" where
  "iterable node =
     (if is_nullish node then False
      else if is_nullish (js_prop node ''children'') then True
      else if is_string (js_prop node ''children'') then True
      else if is_array (js_prop node ''children'')
           then list_all iterable (elems (js_prop node ''children''))
      else False)"
  by pat_completeness auto
termination
proof (relation "measure size", goal_cases)
  case 1
  then show ?case by simp
next
  case (2 node x)
  then show ?case
    using size_elems[of x "js_prop node ''children''"] size_js_prop_le[of node "''children''"]
    by simp
qed

declare iterable.simps [simp del]

text \<open>The string \<^verbatim>\<open>String(node.value ?? "")\<close> that the diff reads from a text node.\<close>

definition text_value :: "jsval \<Rightarrow> string" where
  "text_value node = js_String (nullish_or (js_prop node ''value'') (JStr []))"




subsection \<open>A value compared with itself\<close>

lemma strict_eq_refl: "strict_eq v v"
  by (cases v) simp_all

lemma no_replace_refl_aux:
  shows "b = a \<Longrightarrow> \<not> fullReplace b a"
    and "bv = av \<Longrightarrow> \<not> fullReplaceValue bv av"
proof (induction b a and bv av rule: fullReplace_fullReplaceValue.induct)
  case (1 before after)
  have ids: "\<not> (strict_neq (js_prop before ''type'') (js_prop after ''type'')
         \<or> strict_neq (js_prop before ''id'') (js_prop after ''id'')
         \<or> strict_neq (js_prop before ''key'') (js_prop after ''key''))"
    using "1.prems" strict_eq_refl by (simp add: strict_neq_def)
  have "\<not> fullReplaceValue (js_prop before field) (js_prop after field)"
    if "field \<in> set (field_set before after)"
       "\<not> (isStreamingText before \<and> isStreamingText after \<and> field = ''value''
           \<and> prefix (js_String (nullish_or (js_prop before ''value'') (JStr [])))
                     (js_String (js_prop after ''value'')))"
       "\<not> (isStreamingText before \<and> isStreamingText after \<and> field = ''streaming'')"
    for field
    using "1.IH"[OF ids that] "1.prems" by simp
  then show ?case
    using ids by (subst fullReplace.simps) (auto simp: list_ex_iff)
next
  case (2 beforeValue afterValue)
  show ?case
  proof (cases "is_array beforeValue")
    case True
    have "\<not> fullReplaceValue x y"
      if "(x, y) \<in> set (zip (elems beforeValue) (elems afterValue))" for x y
    proof -
      have "x = y" using that "2.prems" by (auto simp: in_set_zip)
      then show ?thesis using "2.IH"(1)[OF _ _ that] True "2.prems" by auto
    qed
    then show ?thesis using True "2.prems"
      by (subst fullReplaceValue.simps) (auto simp: list_ex_iff)
  next
    case False
    then show ?thesis using "2.prems" strict_eq_refl
      by (subst fullReplaceValue.simps) (simp add: strict_neq_def)
  qed
qed

lemma fullReplace_refl: "\<not> fullReplace v v"
  using no_replace_refl_aux(1) by simp


subsection \<open>Unchanged snapshots\<close>

text \<open>
  Two entries of the lists of text nodes are quiet when they have the same key and the
  same text; two nodes are aligned when the traversal completes on both or on neither
  and their text nodes are quiet one by one.
\<close>

definition quiet_entry :: "string \<times> jsval \<Rightarrow> string \<times> jsval \<Rightarrow> bool" where
  "quiet_entry x y = (fst y = fst x \<and> text_value (snd y) = text_value (snd x))"





lemma fields_rel_keys:
  "list_all2 (\<lambda>x y. fst y = fst x \<and> R x y) fs fs' \<Longrightarrow> map fst fs' = map fst fs"
  by (induction rule: list_all2_induct) auto


lemma concat_list_all2:
  "list_all2 (\<lambda>x y. list_all2 Q (f x) (f y)) xs ys
     \<Longrightarrow> list_all2 Q (concat (map f xs)) (concat (map f ys))"
  by (induction rule: list_all2_induct) (auto intro: list_all2_appendI)






lemma array_node:
  "iterable (JArr m xs)" "text_nodes (JArr m xs) = []"
  by (simp_all add: iterable.simps text_nodes.simps isStreamingText_def)





subsection \<open>The traversal and the record it builds\<close>

definition assign_all :: "jsval js_record \<Rightarrow> (string \<times> jsval) list \<Rightarrow> jsval js_record" where
  "assign_all r kvs = foldl (\<lambda>r kv. rec_set (fst kv) (snd kv) r) r kvs"

lemma assign_all_simps:
  "assign_all r [] = r"
  "assign_all r (kv # kvs) = assign_all (rec_set (fst kv) (snd kv) r) kvs"
  "assign_all r (xs @ ys) = assign_all (assign_all r xs) ys"
  by (simp_all add: assign_all_def)

lemma recurse_text_nodes:
  shows "recurse node comps
           = (if iterable node then Inr (assign_all comps (text_nodes node)) else Inl TypeError)"
    and "recurse_children cs comps
           = (if list_all iterable cs then Inr (assign_all comps (concat (map text_nodes cs)))
              else Inl TypeError)"
proof (induction node comps and cs comps rule: recurse_recurse_children.induct)
  case (1 node components)
  let ?c = "js_prop node ''children''"
  let ?head = "if isStreamingText node \<and> truthy (js_prop node ''id'')
               then [(js_String (js_prop node ''id''), node)] else []"
  let ?comps1 = "if isStreamingText node \<and> truthy (js_prop node ''id'')
                 then rec_set (js_String (js_prop node ''id'')) node components else components"
  have head: "assign_all components ?head = ?comps1" by (simp add: assign_all_def)
  have tn: "text_nodes node = ?head @ concat (map text_nodes (elems ?c))"
    by (subst text_nodes.simps) simp
  show ?case
  proof (cases "is_nullish node")
    case True
    then show ?thesis by (subst recurse.simps, subst iterable.simps) simp
  next
    case nn: False
    show ?thesis
    proof (cases "is_nullish ?c")
      case True
      then have "elems ?c = []" by (cases ?c) simp_all
      then show ?thesis
        using nn True head
        by (subst recurse.simps, subst iterable.simps, subst tn)
           (simp add: nullish_or_def Let_def assign_all_simps)
    next
      case nc: False
      show ?thesis
      proof (cases "is_array ?c")
        case True
        have "recurse_children (elems ?c) ?comps1
                = (if list_all iterable (elems ?c)
                   then Inr (assign_all ?comps1 (concat (map text_nodes (elems ?c))))
                   else Inl TypeError)"
          using "1.IH"[OF nn refl refl] True nc by (simp add: nullish_or_def)
        moreover have "\<not> is_string ?c" using True by (cases ?c) simp_all
        ultimately show ?thesis
          using nn nc True head
          by (subst recurse.simps, subst iterable.simps, subst tn)
             (simp add: nullish_or_def Let_def assign_all_simps)
      next
        case na: False
        then have "elems ?c = []" by (cases ?c) simp_all
        then show ?thesis
          using nn nc na head
          by (subst recurse.simps, subst iterable.simps, subst tn)
             (simp add: nullish_or_def Let_def assign_all_simps)
      qed
    qed
  qed
next
  case (2 components)
  then show ?case by (simp add: assign_all_simps)
next
  case (3 child rest components)
  show ?case
  proof (cases "iterable child")
    case True
    then have r: "recurse child components = Inr (assign_all components (text_nodes child))"
      using "3.IH"(1) by simp
    show ?thesis
      using True r "3.IH"(2)[OF r] by (simp add: assign_all_simps)
  next
    case False
    then have "recurse child components = Inl TypeError" using "3.IH"(1) by simp
    then show ?thesis using False by simp
  qed
qed

lemma findAll_text_nodes:
  "findAllStreamingTextComponents root
     = (if iterable root then Inr (assign_all [] (text_nodes root)) else Inl TypeError)"
  by (simp add: findAllStreamingTextComponents_def recurse_text_nodes)

subsection \<open>Records related entry by entry\<close>

lemma rec_set_rel:
  assumes key: "\<And>x y. E x y \<Longrightarrow> fst y = fst x"
      and "list_all2 E r r'" and "E (k, v) (k, v')"
  shows "list_all2 E (rec_set k v r) (rec_set k v' r')"
proof -
  have keys: "map fst r' = map fst r"
    using assms(2) key by (induction rule: list_all2_induct) auto
  then have none: "(map_of r' k = None) = (map_of r k = None)"
    by (metis map_of_eq_None_iff set_map)
  have upd: "list_all2 E (map (\<lambda>(k', w). if k' = k then (k', v) else (k', w)) r)
                         (map (\<lambda>(k', w). if k' = k then (k', v') else (k', w)) r')"
    using assms(2)
  proof (induction rule: list_all2_induct)
    case Nil
    then show ?case by simp
  next
    case (Cons x xs y ys)
    then show ?case using key[of x y] assms(3) by (cases x; cases y) auto
  qed
  show ?thesis
    using assms(2,3) none upd by (auto simp: rec_set_def intro: list_all2_appendI)
qed

lemma assign_all_rel:
  assumes key: "\<And>x y. E x y \<Longrightarrow> fst y = fst x"
  shows "list_all2 E kvs kvs' \<Longrightarrow> list_all2 E r r'
           \<Longrightarrow> list_all2 E (assign_all r kvs) (assign_all r' kvs')"
proof (induction arbitrary: r r' rule: list_all2_induct)
  case Nil
  then show ?case by (simp add: assign_all_simps)
next
  case (Cons x xs y ys)
  have "fst y = fst x" using key Cons.hyps(1) by simp
  then have "E (fst x, snd x) (fst x, snd y)" using Cons.hyps(1) by (metis prod.collapse)
  then have "list_all2 E (rec_set (fst x) (snd x) r) (rec_set (fst x) (snd y) r')"
    using rec_set_rel[OF key Cons.prems] by blast
  then show ?case using Cons.IH \<open>fst y = fst x\<close> by (simp add: assign_all_simps)
qed

lemma rec_set_distinct: "distinct (map fst r) \<Longrightarrow> distinct (map fst (rec_set k v r))"
proof -
  assume d: "distinct (map fst r)"
  have same: "map fst (map (\<lambda>(k', w). if k' = k then (k', v) else (k', w)) r) = map fst r"
    by (induction r) auto
  show ?thesis
  proof (cases "k = ''__proto__''")
    case True
    then show ?thesis using d by (simp add: rec_set_def)
  next
    case np: False
    show ?thesis
    proof (cases "map_of r k")
      case None
      then have "k \<notin> set (map fst r)" by (simp add: map_of_eq_None_iff)
      then show ?thesis using d np None by (simp add: rec_set_def)
    next
      case (Some w)
      then have h: "rec_set k v r = map (\<lambda>(k', w). if k' = k then (k', v) else (k', w)) r"
        using np by (simp add: rec_set_def)
      have "map fst (rec_set k v r) = map fst r" unfolding h by (rule same)
      then show ?thesis using d by (simp only:)
    qed
  qed
qed

lemma assign_all_distinct: "distinct (map fst r) \<Longrightarrow> distinct (map fst (assign_all r kvs))"
  by (induction kvs arbitrary: r) (simp_all add: assign_all_simps rec_set_distinct)

lemma rel_lookup:
  assumes key: "\<And>x y. E x y \<Longrightarrow> fst y = fst x"
      and "list_all2 E nb na" and "distinct (map fst nb)" and "(k, an) \<in> set na"
  shows "\<exists>bn. rec_get nb k = Some bn \<and> E (k, bn) (k, an)"
proof -
  obtain i where i: "i < length na" "na ! i = (k, an)"
    using assms(4) by (auto simp: in_set_conv_nth)
  have len: "length nb = length na" using assms(2) by (rule list_all2_lengthD)
  have "E (nb ! i) (na ! i)" using assms(2) i(1) len by (simp add: list_all2_conv_all_nth)
  then have e: "E (nb ! i) (k, an)" using i(2) by simp
  have "fst (nb ! i) = k" using key[OF e] by simp
  then have c: "nb ! i = (k, snd (nb ! i))" by (metis prod.collapse)
  moreover have "nb ! i \<in> set nb" using i len by simp
  ultimately have "(k, snd (nb ! i)) \<in> set nb" by simp
  then have "map_of nb k = Some (snd (nb ! i))"
    using assms(3) by (rule map_of_is_SomeI[rotated])
  moreover have "E (k, snd (nb ! i)) (k, an)" using e c by simp
  ultimately show ?thesis by (auto simp: rec_get_def)
qed



subsection \<open>The loop over the text nodes of the new snapshot\<close>



subsection \<open>One node replaced\<close>



lemma js_prop_absent:
  "k \<notin> set (js_keys (JObj n fs)) \<Longrightarrow> js_prop (JObj n fs) k = JUndefined"
  by (auto simp: map_of_eq_None_iff[THEN iffD2] split: option.splits)

lemma js_prop_absent_name:
  "k \<notin> set (js_keys v) \<Longrightarrow> \<not> set k \<subseteq> set ''0123456789'' \<Longrightarrow> k \<noteq> ''length''
     \<Longrightarrow> js_prop v k = JUndefined"
proof (cases v)
  case (JObj n fs)
  assume "k \<notin> set (js_keys v)"
  then show ?thesis using JObj js_prop_absent[of k n fs] by simp
qed simp_all











subsection \<open>The diff of two snapshots that differ in one text node\<close>

lemma quiet_entry_key: "quiet_entry x y \<Longrightarrow> fst y = fst x"
  by (simp add: quiet_entry_def)

text \<open>
  The entries with the key \<open>cid\<close> are the replaced node and its replacement; the other
  entries are quiet.
\<close>

definition entry_rel :: "string \<Rightarrow> jsval \<Rightarrow> jsval \<Rightarrow> string \<times> jsval \<Rightarrow> string \<times> jsval \<Rightarrow> bool" where
  "entry_rel cid tb ta x y =
     (fst y = fst x
      \<and> (if fst x = cid then snd x = tb \<and> snd y = ta
          else text_value (snd y) = text_value (snd x)))"

lemma entry_rel_key: "entry_rel cid tb ta x y \<Longrightarrow> fst y = fst x"
  by (simp add: entry_rel_def)





section \<open>Text values that are not extended\<close>

text \<open>
  The values reachable in a snapshot: the snapshot, the elements of its arrays and the
  values of the fields of its objects.
\<close>

fun subvalues :: "jsval \<Rightarrow> jsval list" where
  "subvalues (JArr n xs) = JArr n xs # concat (map subvalues xs)"
| "subvalues (JObj n fs) = JObj n fs # concat (map (\<lambda>kv. subvalues (snd kv)) fs)"
| "subvalues v = [v]"

text \<open>
  Two snapshots that exist at the same time: an object or array of the one that is
  identical (\<^verbatim>\<open>===\<close>) to one of the other has its contents.
\<close>

definition consistent :: "jsval \<Rightarrow> jsval \<Rightarrow> bool" where
  "consistent b a =
     list_all (\<lambda>x. list_all (\<lambda>y. strict_eq x y \<longrightarrow> y = x) (subvalues a)) (subvalues b)"

text \<open>
  Two entries of the lists of text nodes with the same key, the text of the second
  starting with the text of the first.
\<close>

definition prefix_entry :: "string \<times> jsval \<Rightarrow> string \<times> jsval \<Rightarrow> bool" where
  "prefix_entry x y = (fst y = fst x \<and> prefix (text_value (snd x)) (text_value (snd y)))"

definition cumulative :: "jsval \<Rightarrow> jsval \<Rightarrow> bool" where
  "cumulative b a = list_all2 prefix_entry (text_nodes b) (text_nodes a)"

lemma strict_eq_prim:
  "strict_eq x y \<Longrightarrow> \<not> typeof_object x \<or> \<not> typeof_object y \<Longrightarrow> y = x"
  by (cases x; cases y; simp)

lemma subvalues_self: "v \<in> set (subvalues v)"
  by (cases v) simp_all

lemma subvalues_prim: "\<not> typeof_object v \<Longrightarrow> subvalues v = [v]"
  by (cases v) simp_all

lemma subvalues_js_prop:
  assumes "typeof_object (js_prop v k)"
  shows "set (subvalues (js_prop v k)) \<subseteq> set (subvalues v)"
proof (cases v)
  case (JObj n fs)
  then obtain w where w: "map_of fs k = Some w"
    using assms by (auto split: option.splits)
  then have "(k, w) \<in> set fs" by (rule map_of_SomeD)
  then show ?thesis using JObj w by force
next
  case (JArr m xs)
  then obtain w where w: "map_of (zip (map dec_of_nat [0..<length xs]) xs) k = Some w"
    using assms by (auto simp: js_prop.simps split: option.splits if_splits)
  then have "w \<in> set xs" by (rule map_of_zip_mem)
  then show ?thesis using JArr w by (auto simp: js_prop.simps)
next
  case (JStr x)
  then show ?thesis
    using assms by (auto simp: js_prop.simps split: option.splits if_splits dest!: map_of_zip_mem)
qed (use assms in simp_all)

lemma subvalues_elems: "x \<in> set (elems v) \<Longrightarrow> set (subvalues x) \<subseteq> set (subvalues v)"
  by (cases v) auto

lemma consistent_iff:
  "consistent b a
     \<longleftrightarrow> (\<forall>x\<in>set (subvalues b). \<forall>y\<in>set (subvalues a). strict_eq x y \<longrightarrow> y = x)"
  by (simp add: consistent_def list_all_iff)

lemma consistent_self: "consistent b a \<Longrightarrow> strict_eq b a \<Longrightarrow> a = b"
  using subvalues_self by (auto simp: consistent_iff)

lemma consistent_js_prop:
  assumes "consistent b a"
  shows "consistent (js_prop b k) (js_prop a k)"
  unfolding consistent_iff
proof (intro ballI impI)
  fix x y
  assume x: "x \<in> set (subvalues (js_prop b k))" and y: "y \<in> set (subvalues (js_prop a k))"
     and e: "strict_eq x y"
  show "y = x"
  proof (cases "typeof_object (js_prop b k) \<and> typeof_object (js_prop a k)")
    case True
    then have "x \<in> set (subvalues b)" "y \<in> set (subvalues a)"
      using x y subvalues_js_prop by blast+
    then show ?thesis using assms e by (auto simp: consistent_iff)
  next
    case False
    then have "\<not> typeof_object x \<or> \<not> typeof_object y"
      using x y by (auto simp: subvalues_prim)
    then show ?thesis using e strict_eq_prim by blast
  qed
qed

lemma consistent_elems:
  assumes "consistent b a" and "x \<in> set (elems b)" and "y \<in> set (elems a)"
  shows "consistent x y"
  using assms subvalues_elems[OF assms(2)] subvalues_elems[OF assms(3)]
  unfolding consistent_iff by blast

lemma cumulative_refl: "cumulative v v"
  by (simp add: cumulative_def list_all2_refl prefix_entry_def)

lemma is_string_JStr: "is_string v \<Longrightarrow> \<exists>s. v = JStr s"
  by (cases v) simp_all

lemma no_replace_string:
  assumes "is_string x \<or> is_string y" and "\<not> fullReplaceValue x y"
  shows "y = x"
proof -
  have "\<not> (is_array x \<and> is_array y)" "\<not> (typeof_object x \<and> typeof_object y)"
    using assms(1) is_string_JStr by fastforce+
  then have "strict_eq x y"
    using assms(2) by (subst (asm) fullReplaceValue.simps) (simp add: strict_neq_def split: if_splits)
  then show ?thesis
    using strict_eq_prim \<open>\<not> (typeof_object x \<and> typeof_object y)\<close> by blast
qed

lemma no_replace_array:
  assumes "is_array x \<or> is_array y" and "\<not> fullReplaceValue x y"
  shows "is_array x \<and> is_array y"
proof (rule ccontr)
  assume n: "\<not> (is_array x \<and> is_array y)"
  then have "\<not> strict_eq x y" "\<not> (has_type_prop x \<and> has_type_prop y)"
    using assms(1) by (cases x; cases y; simp)+
  then show False
    using assms(2) n by (subst (asm) fullReplaceValue.simps) (auto simp: strict_neq_def)
qed

lemma no_replace_fields:
  assumes "\<not> fullReplace b a"
  shows "strict_eq (js_prop b ''type'') (js_prop a ''type'')"
    and "strict_eq (js_prop b ''id'') (js_prop a ''id'')"
    and "\<And>k. k \<in> set (field_set b a)
           \<Longrightarrow> (isStreamingText b \<and> isStreamingText a \<and> k = ''value''
                  \<and> prefix (js_String (nullish_or (js_prop b ''value'') (JStr [])))
                            (js_String (js_prop a ''value'')))
               \<or> (isStreamingText b \<and> isStreamingText a \<and> k = ''streaming'')
               \<or> \<not> fullReplaceValue (js_prop b k) (js_prop a k)"
proof -
  have ids: "\<not> (strict_neq (js_prop b ''type'') (js_prop a ''type'')
         \<or> strict_neq (js_prop b ''id'') (js_prop a ''id'')
         \<or> strict_neq (js_prop b ''key'') (js_prop a ''key''))"
  proof
    assume "strict_neq (js_prop b ''type'') (js_prop a ''type'')
         \<or> strict_neq (js_prop b ''id'') (js_prop a ''id'')
         \<or> strict_neq (js_prop b ''key'') (js_prop a ''key'')"
    then have "fullReplace b a" by (subst fullReplace.simps) (simp only: if_True)
    then show False using assms by simp
  qed
  then show "strict_eq (js_prop b ''type'') (js_prop a ''type'')"
    and "strict_eq (js_prop b ''id'') (js_prop a ''id'')"
    by (simp_all add: strict_neq_def)
  fix k
  assume k: "k \<in> set (field_set b a)"
  have "fullReplace b a = list_ex (\<lambda>field.
             if isStreamingText b \<and> isStreamingText a \<and> field = ''value''
                \<and> prefix (js_String (nullish_or (js_prop b ''value'') (JStr [])))
                          (js_String (js_prop a ''value''))
             then False
             else if isStreamingText b \<and> isStreamingText a \<and> field = ''streaming''
             then False
             else fullReplaceValue (js_prop b field) (js_prop a field))
           (field_set b a)"
    using ids by (subst fullReplace.simps) (simp only: if_False)
  then have "\<not> (if isStreamingText b \<and> isStreamingText a \<and> k = ''value''
                \<and> prefix (js_String (nullish_or (js_prop b ''value'') (JStr [])))
                          (js_String (js_prop a ''value''))
             then False
             else if isStreamingText b \<and> isStreamingText a \<and> k = ''streaming''
             then False
             else fullReplaceValue (js_prop b k) (js_prop a k))"
    using assms k unfolding list_ex_iff by blast
  then show "(isStreamingText b \<and> isStreamingText a \<and> k = ''value''
                  \<and> prefix (js_String (nullish_or (js_prop b ''value'') (JStr [])))
                            (js_String (js_prop a ''value'')))
               \<or> (isStreamingText b \<and> isStreamingText a \<and> k = ''streaming'')
               \<or> \<not> fullReplaceValue (js_prop b k) (js_prop a k)"
    by (meson)
qed

text \<open>
  Without a full replace the text nodes of the two snapshots are the same in number and
  order, with the same keys, and every text is extended or unchanged.
\<close>

lemma value_in_field_set:
  assumes "is_string (js_prop b ''value'') \<or> is_string (js_prop a ''value'')"
  shows "''value'' \<in> set (field_set b a)"
proof -
  have "js_prop b ''value'' \<noteq> JUndefined \<or> js_prop a ''value'' \<noteq> JUndefined"
    using assms by auto
  then show ?thesis using js_prop_absent_name[of "''value''"] by (auto simp: field_set_def)
qed

lemma no_replace_cumulative:
  shows "consistent before after \<Longrightarrow> \<not> fullReplace before after \<Longrightarrow> cumulative before after"
    and "consistent beforeValue afterValue \<Longrightarrow> \<not> fullReplaceValue beforeValue afterValue
           \<Longrightarrow> cumulative beforeValue afterValue
               \<and> list_all2 cumulative (elems beforeValue) (elems afterValue)"
proof (induction before after and beforeValue afterValue rule: fullReplace_fullReplaceValue.induct)
  case (1 before after)
  note nr = no_replace_fields[OF "1.prems"(2)]
  have ids: "\<not> (strict_neq (js_prop before ''type'') (js_prop after ''type'')
         \<or> strict_neq (js_prop before ''id'') (js_prop after ''id'')
         \<or> strict_neq (js_prop before ''key'') (js_prop after ''key''))"
    using "1.prems"(2) by (subst (asm) fullReplace.simps) (meson)
  have type: "js_prop after ''type'' = js_prop before ''type''"
    using consistent_self[OF consistent_js_prop[OF "1.prems"(1)] nr(1)] .
  have id: "js_prop after ''id'' = js_prop before ''id''"
    using consistent_self[OF consistent_js_prop[OF "1.prems"(1)] nr(2)] .
  have field: "cumulative (js_prop before k) (js_prop after k)
               \<and> list_all2 cumulative (elems (js_prop before k)) (elems (js_prop after k))"
    if "k \<in> set (field_set before after)" "k \<noteq> ''value''" "k \<noteq> ''streaming''" for k
  proof -
    have n: "\<not> fullReplaceValue (js_prop before k) (js_prop after k)"
      using nr(3)[OF that(1)] that(2,3) by blast
    show ?thesis
      using "1.IH"[OF ids that(1) _ _ consistent_js_prop[OF "1.prems"(1)] n] that(2,3) by blast
  qed
  have st: "isStreamingText after = isStreamingText before"
  proof (rule ccontr)
    assume d: "isStreamingText after \<noteq> isStreamingText before"
    then have s: "is_string (js_prop before ''value'') \<or> is_string (js_prop after ''value'')"
      by (auto simp: isStreamingText_def)
    have "\<not> fullReplaceValue (js_prop before ''value'') (js_prop after ''value'')"
      using nr(3)[OF value_in_field_set[OF s]] d by blast
    then have "js_prop after ''value'' = js_prop before ''value''"
      using no_replace_string[OF s] by blast
    then show False using d type by (simp add: isStreamingText_def)
  qed
  have tv: "prefix (text_value before) (text_value after)" if "isStreamingText before"
  proof -
    have sa: "is_string (js_prop after ''value'')"
      using st that by (simp add: isStreamingText_def)
    then have ta: "text_value after = js_String (js_prop after ''value'')"
      by (auto simp: text_value_def nullish_or_def dest: is_string_JStr)
    have "''value'' \<in> set (field_set before after)"
      using value_in_field_set sa by blast
    then consider
        (p) "prefix (js_String (nullish_or (js_prop before ''value'') (JStr [])))
                    (js_String (js_prop after ''value''))"
      | (e) "\<not> fullReplaceValue (js_prop before ''value'') (js_prop after ''value'')"
      using nr(3) by blast
    then show ?thesis
    proof cases
      case p
      then show ?thesis using ta by (simp add: text_value_def)
    next
      case e
      then have "js_prop after ''value'' = js_prop before ''value''"
        using no_replace_string sa by blast
      then show ?thesis by (simp add: text_value_def)
    qed
  qed
  have own: "list_all2 prefix_entry
      (if isStreamingText before \<and> truthy (js_prop before ''id'')
       then [(js_String (js_prop before ''id''), before)] else [])
      (if isStreamingText after \<and> truthy (js_prop after ''id'')
       then [(js_String (js_prop after ''id''), after)] else [])"
    using st id tv by (simp add: prefix_entry_def)
  have ch: "list_all2 cumulative (elems (js_prop before ''children''))
                                 (elems (js_prop after ''children''))"
  proof (cases "''children'' \<in> set (field_set before after)")
    case True
    then show ?thesis using field[of "''children''"] by simp
  next
    case False
    then have "js_prop before ''children'' = JUndefined" "js_prop after ''children'' = JUndefined"
      using js_prop_absent_name[of "''children''"] by (auto simp: field_set_def)
    then show ?thesis by simp
  qed
  have "list_all2 (\<lambda>x y. list_all2 prefix_entry (text_nodes x) (text_nodes y))
          (elems (js_prop before ''children'')) (elems (js_prop after ''children''))"
    using ch by (rule list_all2_mono) (simp add: cumulative_def)
  then have "list_all2 prefix_entry
          (concat (map text_nodes (elems (js_prop before ''children''))))
          (concat (map text_nodes (elems (js_prop after ''children''))))"
    by (rule concat_list_all2)
  then show ?case
    unfolding cumulative_def
    by (subst (1 2) text_nodes.simps) (intro list_all2_appendI own)
next
  case (2 beforeValue afterValue)
  show ?case
  proof (cases "is_array beforeValue \<and> is_array afterValue")
    case True
    have nl: "\<not> length (elems beforeValue) \<noteq> length (elems afterValue)"
    proof
      assume "length (elems beforeValue) \<noteq> length (elems afterValue)"
      then have "fullReplaceValue beforeValue afterValue"
        using True by (subst fullReplaceValue.simps) simp
      then show False using "2.prems"(2) by simp
    qed
    have "fullReplaceValue beforeValue afterValue
            = list_ex (\<lambda>(b, a). fullReplaceValue b a)
                (zip (elems beforeValue) (elems afterValue))"
      using True nl by (subst fullReplaceValue.simps) simp
    then have all: "\<not> fullReplaceValue x y"
      if "(x, y) \<in> set (zip (elems beforeValue) (elems afterValue))" for x y
      using "2.prems"(2) that unfolding list_ex_iff by blast
    have "cumulative x y"
      if "(x, y) \<in> set (zip (elems beforeValue) (elems afterValue))" for x y
    proof -
      have "x \<in> set (elems beforeValue)" "y \<in> set (elems afterValue)"
        using that by (auto dest: set_zip_leftD set_zip_rightD)
      then have "consistent x y" using consistent_elems[OF "2.prems"(1)] by blast
      then show ?thesis using "2.IH"(1)[OF True nl that refl _ all[OF that]] by simp
    qed
    then have "list_all2 cumulative (elems beforeValue) (elems afterValue)"
      using nl by (auto simp: list_all2_iff)
    moreover have "cumulative beforeValue afterValue"
    proof -
      obtain m xs m' ys where "beforeValue = JArr m xs" "afterValue = JArr m' ys"
        using True by (cases beforeValue; cases afterValue; simp)
      then show ?thesis by (simp add: cumulative_def array_node(2))
    qed
    ultimately show ?thesis by simp
  next
    case False
    show ?thesis
    proof (cases "strict_eq beforeValue afterValue")
      case True
      then have "afterValue = beforeValue" using consistent_self[OF "2.prems"(1)] by simp
      then show ?thesis by (simp add: cumulative_refl list_all2_refl)
    next
      case ne: False
      have sn: "strict_neq beforeValue afterValue" using ne by (simp add: strict_neq_def)
      have t: "typeof_object beforeValue \<and> typeof_object afterValue
               \<and> has_type_prop beforeValue \<and> has_type_prop afterValue"
      proof (rule ccontr)
        assume "\<not> ?thesis"
        then have "fullReplaceValue beforeValue afterValue"
          using False sn by (subst fullReplaceValue.simps) auto
        then show False using "2.prems"(2) by simp
      qed
      have "fullReplaceValue beforeValue afterValue = fullReplace beforeValue afterValue"
        using False sn t by (subst fullReplaceValue.simps) auto
      then have n: "\<not> fullReplace beforeValue afterValue" using "2.prems"(2) by simp
      have "cumulative beforeValue afterValue"
        using "2.IH"(2)[OF False sn t "2.prems"(1) n] .
      moreover have "elems beforeValue = []"
        using t by (cases beforeValue) simp_all
      moreover have "elems afterValue = []"
        using t by (cases afterValue) simp_all
      ultimately show ?thesis by simp
    qed
  qed
qed

section \<open>The diff of widget snapshots\<close>

text \<open>Example nodes: a text node, a Markdown node and a card, each at an address.\<close>

definition Text_node :: "nat \<Rightarrow> string \<Rightarrow> string \<Rightarrow> bool \<Rightarrow> jsval" where
  "Text_node addr cid v s =
     JObj addr [(''type'', JStr ''Text''), (''id'', JStr cid), (''value'', JStr v),
                (''streaming'', JBool s)]"


definition Card_of :: "nat \<Rightarrow> nat \<Rightarrow> jsval list \<Rightarrow> jsval" where
  "Card_of addr arr cs = JObj addr [(''type'', JStr ''Card''), (''children'', JArr arr cs)]"




subsection \<open>A flip of the streaming flag\<close>




subsection \<open>The two exemptions from a full replace\<close>




subsection \<open>A value that is not extended\<close>

text \<open>
  Claim C4 reads: when the value of an id-bearing text node in \<open>after\<close> does not start
  with its value in \<open>before\<close>, the diff fails with the error of a non-cumulative update.
  On a text node that goes from \<^verbatim>\<open>"Hello"\<close> to \<^verbatim>\<open>"World"\<close> the diff is a full replace:
  \<^verbatim>\<open>fullReplace\<close> exempts the field \<^verbatim>\<open>value\<close> only when the new value starts with the
  old one, and \<^verbatim>\<open>diffWidget\<close> returns before it compares the text nodes.
\<close>

theorem regressed_text_counterexample:
  "diffWidget (Text_node 1 ''t'' ''Hello'' True) (Text_node 2 ''t'' ''World'' True)
     = Inr [WidgetRootUpdated (Text_node 2 ''t'' ''World'' True)]"
  by (simp add: diffWidget_def Text_node_def fullReplace.simps
      fullReplaceValue.simps isStreamingText_def field_set_def strict_neq_def nullish_or_def)

text \<open>
  Claim C4, amended.  For two snapshots that exist at the same time, when the text node
  recorded under some id in \<open>after\<close> has a value that does not start with the value of
  the text node recorded under that id in \<open>before\<close>, the diff is the full replace
  \<^verbatim>\<open>widget.root.updated\<close> with the snapshot \<open>after\<close>, and no error.
\<close>

theorem regressed_text_is_full_replace:
  assumes "consistent before after"
      and "findAllStreamingTextComponents before = Inr beforeNodes"
      and "findAllStreamingTextComponents after = Inr afterNodes"
      and "rec_get beforeNodes k = Some beforeNode"
      and "rec_get afterNodes k = Some afterNode"
      and "\<not> prefix (text_value beforeNode) (text_value afterNode)"
  shows "diffWidget before after = Inr [WidgetRootUpdated after]"
proof -
  have it: "iterable before" "iterable after"
    and nb: "beforeNodes = assign_all [] (text_nodes before)"
    and na: "afterNodes = assign_all [] (text_nodes after)"
    using assms(2,3) by (auto simp: findAll_text_nodes split: if_splits)
  have "\<not> is_nullish before"
    using it(1) by (subst (asm) iterable.simps) (simp split: if_splits)
  moreover have "\<not> is_nullish after"
    using it(2) by (subst (asm) iterable.simps) (simp split: if_splits)
  ultimately have nn: "\<not> (is_nullish before \<or> is_nullish after)" by simp
  have "fullReplace before after"
  proof (rule ccontr)
    assume "\<not> fullReplace before after"
    then have "list_all2 prefix_entry (text_nodes before) (text_nodes after)"
      using no_replace_cumulative(1)[OF assms(1)] by (simp add: cumulative_def)
    then have rel: "list_all2 prefix_entry beforeNodes afterNodes"
      unfolding nb na by (intro assign_all_rel[of prefix_entry]) (simp_all add: prefix_entry_def)
    have dist: "distinct (map fst beforeNodes)"
      unfolding nb by (rule assign_all_distinct) simp
    have "(k, afterNode) \<in> set afterNodes"
      using assms(5) by (simp add: rec_get_def map_of_SomeD)
    then have "\<exists>bn. rec_get beforeNodes k = Some bn \<and> prefix_entry (k, bn) (k, afterNode)"
      by (intro rel_lookup[of prefix_entry, OF _ rel dist]) (simp_all add: prefix_entry_def)
    then show False using assms(4,6) by (auto simp: prefix_entry_def)
  qed
  then show ?thesis using nn by (simp only: diffWidget_def if_False if_True)
qed

theorem regressed_text_is_full_replace_witness:
  "diffWidget (Card_of 1 2 [Text_node 3 ''t'' ''Hello'' True])
              (Card_of 4 5 [Text_node 6 ''t'' ''World'' True])
     = Inr [WidgetRootUpdated (Card_of 4 5 [Text_node 6 ''t'' ''World'' True])]"
proof (rule regressed_text_is_full_replace[where k = "''t''"
         and beforeNodes = "[(''t'', Text_node 3 ''t'' ''Hello'' True)]"
         and afterNodes = "[(''t'', Text_node 6 ''t'' ''World'' True)]"])
  show "consistent (Card_of 1 2 [Text_node 3 ''t'' ''Hello'' True])
                   (Card_of 4 5 [Text_node 6 ''t'' ''World'' True])"
    by (simp add: consistent_def Card_of_def Text_node_def)
  show "findAllStreamingTextComponents (Card_of 1 2 [Text_node 3 ''t'' ''Hello'' True])
          = Inr [(''t'', Text_node 3 ''t'' ''Hello'' True)]"
    by (simp add: findAllStreamingTextComponents_def recurse.simps Card_of_def Text_node_def
        isStreamingText_def nullish_or_def rec_set_def)
  show "findAllStreamingTextComponents (Card_of 4 5 [Text_node 6 ''t'' ''World'' True])
          = Inr [(''t'', Text_node 6 ''t'' ''World'' True)]"
    by (simp add: findAllStreamingTextComponents_def recurse.simps Card_of_def Text_node_def
        isStreamingText_def nullish_or_def rec_set_def)
  show "rec_get [(''t'', Text_node 3 ''t'' ''Hello'' True)] ''t''
          = Some (Text_node 3 ''t'' ''Hello'' True)"
    by (simp add: rec_get_def)
  show "rec_get [(''t'', Text_node 6 ''t'' ''World'' True)] ''t''
          = Some (Text_node 6 ''t'' ''World'' True)"
    by (simp add: rec_get_def)
  show "\<not> prefix (text_value (Text_node 3 ''t'' ''Hello'' True))
                  (text_value (Text_node 6 ''t'' ''World'' True))"
    by (simp add: text_value_def Text_node_def nullish_or_def)
qed

subsection \<open>A value extended by a suffix\<close>




end
